theory Spec2Isabelle
  imports Main "HOL-Library.AList" "HOL-Library.Multiset"
begin

section \<open>Python values\<close>

text \<open>
  The connector handles JSON data decoded by \<^verbatim>\<open>response.json()\<close>: \<^verbatim>\<open>None\<close>, booleans,
  integers, strings, lists and dictionaries with string keys. A dictionary is an
  association list in insertion order with distinct keys, as Python's \<^verbatim>\<open>dict\<close> is.
\<close>

datatype pyval =
    PNone
  | PBool bool
  | PInt int
  | PStr string
  | PList "pyval list"
  | PDict "(string \<times> pyval) list"

type_synonym pydict = "(string \<times> pyval) list"

datatype py_error =
    KeyError
  | TypeError
  | IndexError
  | AttributeError
  | ZeroDivisionError
  | UnboundLocalError

text \<open>Truthiness, as \<^verbatim>\<open>if x:\<close> reads a value.\<close>

fun truthy :: "pyval \<Rightarrow> bool" where
  "truthy PNone = False"
| "truthy (PBool b) = b"
| "truthy (PInt n) = (n \<noteq> 0)"
| "truthy (PStr s) = (s \<noteq> [])"
| "truthy (PList xs) = (xs \<noteq> [])"
| "truthy (PDict d) = (d \<noteq> [])"

text \<open>\<^verbatim>\<open>d.get(k)\<close>, \<^verbatim>\<open>d[k]\<close> and \<^verbatim>\<open>d[k] = v\<close> on a dictionary.\<close>

definition dict_get :: "('k \<times> pyval) list \<Rightarrow> 'k \<Rightarrow> pyval" where
  "dict_get d k = (case map_of d k of None \<Rightarrow> PNone | Some v \<Rightarrow> v)"

definition dict_item :: "('k \<times> 'v) list \<Rightarrow> 'k \<Rightarrow> py_error + 'v" where
  "dict_item d k = (case map_of d k of None \<Rightarrow> Inl KeyError | Some v \<Rightarrow> Inr v)"

definition dict_set :: "('k \<times> 'v) list \<Rightarrow> 'k \<Rightarrow> 'v \<Rightarrow> ('k \<times> 'v) list" where
  "dict_set d k v = AList.update k v d"

text \<open>\<^verbatim>\<open>d.update(e)\<close>: every entry of \<open>e\<close> is stored into \<open>d\<close>, in the order of \<open>e\<close>.\<close>

definition dict_update :: "('k \<times> 'v) list \<Rightarrow> ('k \<times> 'v) list \<Rightarrow> ('k \<times> 'v) list" where
  "dict_update d e = fold (\<lambda>(k, v) acc. AList.update k v acc) e d"

text \<open>The same operations on an arbitrary value: \<^verbatim>\<open>x.get(k)\<close>, \<^verbatim>\<open>x[k]\<close> with a
  string key, \<^verbatim>\<open>x[0]\<close>, and iteration \<^verbatim>\<open>for y in x\<close>.\<close>

fun py_get :: "pyval \<Rightarrow> string \<Rightarrow> py_error + pyval" where
  "py_get (PDict d) k = Inr (dict_get d k)"
| "py_get _ k = Inl AttributeError"

fun py_getitem :: "pyval \<Rightarrow> string \<Rightarrow> py_error + pyval" where
  "py_getitem (PDict d) k = dict_item d k"
| "py_getitem _ k = Inl TypeError"

fun py_first :: "pyval \<Rightarrow> py_error + pyval" where
  "py_first (PList []) = Inl IndexError"
| "py_first (PList (x # xs)) = Inr x"
| "py_first (PStr []) = Inl IndexError"
| "py_first (PStr (c # cs)) = Inr (PStr [c])"
| "py_first (PDict d) = Inl KeyError"
| "py_first _ = Inl TypeError"

fun py_iter :: "pyval \<Rightarrow> py_error + pyval list" where
  "py_iter (PList xs) = Inr xs"
| "py_iter (PDict d) = Inr (map (\<lambda>kv. PStr (fst kv)) d)"
| "py_iter (PStr s) = Inr (map (\<lambda>c. PStr [c]) s)"
| "py_iter _ = Inl TypeError"

text \<open>Equality as \<^verbatim>\<open>==\<close> and the membership test \<^verbatim>\<open>x in xs\<close> on a list decide it:
  a boolean equals the integer 0 or 1, a string equals only strings.\<close>

fun py_eq :: "pyval \<Rightarrow> pyval \<Rightarrow> bool" where
  "py_eq (PBool a) (PInt n) = ((if a then 1 else 0) = n)"
| "py_eq (PInt n) (PBool a) = (n = (if a then 1 else 0))"
| "py_eq x y = (x = y)"

definition py_in :: "pyval \<Rightarrow> pyval list \<Rightarrow> bool" where
  "py_in x xs = list_ex (py_eq x) xs"

section \<open>Time-window partitioning\<close>

text \<open>
  A timestamp string in the format \<^verbatim>\<open>%Y-%m-%dT%H:%M:%SZ\<close> is modelled by the number of
  whole seconds it denotes; a \<^verbatim>\<open>datetime\<close> by its count of microseconds, the resolution
  of Python's \<^verbatim>\<open>datetime\<close> and \<^verbatim>\<open>timedelta\<close>. \<open>strptime\<close> reads a string,
  \<open>strftime\<close> writes one and drops the microseconds.
\<close>

definition strptime :: "int \<Rightarrow> int" where
  "strptime s = s * 1000000"

definition strftime :: "int \<Rightarrow> int" where
  "strftime us = us div 1000000"

text \<open>\<^verbatim>\<open>timedelta / int\<close> rounds the quotient of the microsecond counts to the nearest
  integer, ties to even (\<^verbatim>\<open>_divide_and_round\<close> of the \<^verbatim>\<open>datetime\<close> module).\<close>

definition divide_and_round :: "int \<Rightarrow> int \<Rightarrow> int" where
  "divide_and_round a b =
     (let q = a div b; r = 2 * (a mod b);
          greater_than_half = (if 0 < b then b < r else r < b)
      in if greater_than_half \<or> (r = b \<and> q mod 2 = 1) then q + 1 else q)"

definition datetime_partitioning :: "int \<Rightarrow> int \<Rightarrow> int \<Rightarrow> py_error + int list" where
  "datetime_partitioning start_time end_time processes =
     (if processes = 0 then Inl ZeroDivisionError
      else
        let st = strptime start_time;
            en = strptime end_time;
            diff = divide_and_round (en - st) processes
        in Inr (map (\<lambda>idx. st + diff * int idx) [0..<nat processes] @ [en]))"

subsection \<open>Properties of the partitioner\<close>


lemma divide_and_round_nonneg:
  assumes "0 \<le> a" "0 < b"
  shows "0 \<le> divide_and_round a b"
proof -
  have "0 \<le> a div b" using assms by (simp add: pos_imp_zdiv_nonneg_iff)
  then show ?thesis by (simp add: divide_and_round_def Let_def)
qed

lemma divide_and_round_zero: "b \<noteq> 0 \<Longrightarrow> divide_and_round 0 b = 0"
  by (simp add: divide_and_round_def Let_def)

lemma divide_and_round_cases:
  assumes "0 < b"
  shows "divide_and_round a b = a div b \<or> (divide_and_round a b = a div b + 1 \<and> b \<le> 2 * (a mod b))"
  using assms by (auto simp: divide_and_round_def Let_def)

lemma step_fits:
  assumes D: "0 \<le> D" and W: "0 < W" and H: "W * (W - 1) \<le> 2 * D"
  shows "divide_and_round D W * (W - 1) \<le> D"
proof -
  define q where "q = D div W"
  define r where "r = D mod W"
  have Dqr: "D = q * W + r" by (simp add: q_def r_def)
  have r0: "0 \<le> r" and rW: "r < W" using W by (simp_all add: r_def)
  have q0: "0 \<le> q" using D W by (simp add: q_def pos_imp_zdiv_nonneg_iff)
  from divide_and_round_cases [OF W, of D]
  consider (down) "divide_and_round D W = q" | (up) "divide_and_round D W = q + 1" "W \<le> 2 * r"
    by (auto simp: q_def r_def)
  then show ?thesis
  proof cases
    case down
    have "q * (W - 1) \<le> q * W" using q0 by (simp add: mult_left_mono)
    with down Dqr r0 show ?thesis by simp
  next
    case up
    have "W \<le> q + r + 1"
    proof (rule ccontr)
      assume "\<not> W \<le> q + r + 1"
      then have qle: "q \<le> W - r - 2" by simp
      have "q * W \<le> (W - r - 2) * W" using qle W by (simp add: mult_right_mono)
      then have a: "q * W \<le> W * W - r * W - 2 * W" by (simp add: algebra_simps)
      have "W * W \<le> (2 * r) * W" using up(2) W by (simp add: mult_right_mono)
      then have b: "W * W \<le> 2 * (r * W)" by (simp add: algebra_simps)
      have c: "W * W - W \<le> 2 * (q * W) + 2 * r" using H Dqr by (simp add: algebra_simps)
      from a b c rW W show False by linarith
    qed
    then have "(q + 1) * (W - 1) \<le> q * W + r" by (simp add: algebra_simps)
    with up Dqr show ?thesis by simp
  qed
qed


lemma interpolated_sorted:
  assumes "0 \<le> d"
  shows "sorted (map (\<lambda>idx. st + d * int idx) [0..<n])"
proof -
  have "\<And>i j. i \<le> j \<Longrightarrow> d * int i \<le> d * int j"
    using assms by (simp add: mult_left_mono)
  then show ?thesis by (simp add: sorted_iff_nth_mono)
qed

lemma sorted_with_end:
  assumes d: "0 \<le> d" and n: "0 < n"
  shows "sorted (map (\<lambda>idx. st + d * int idx) [0..<n] @ [en]) \<longleftrightarrow> st + d * (int n - 1) \<le> en"
proof
  assume s: "sorted (map (\<lambda>idx. st + d * int idx) [0..<n] @ [en])"
  from s have "\<forall>i\<in>set [0..<n]. st + d * int i \<le> en" by (simp add: sorted_append)
  moreover have "n - 1 \<in> set [0..<n]" using n by simp
  ultimately have "st + d * int (n - 1) \<le> en" by blast
  with n show "st + d * (int n - 1) \<le> en" by (simp add: of_nat_diff)
next
  assume le: "st + d * (int n - 1) \<le> en"
  have "\<And>i. i < n \<Longrightarrow> st + d * int i \<le> en"
  proof -
    fix i assume "i < n"
    then have "int i \<le> int n - 1" by simp
    then have "d * int i \<le> d * (int n - 1)" using d by (rule mult_left_mono)
    with le show "st + d * int i \<le> en" by simp
  qed
  then show "sorted (map (\<lambda>idx. st + d * int idx) [0..<n] @ [en])"
    using interpolated_sorted [OF d, of st n] by (auto simp: sorted_append)
qed

lemma partition_empty_window:
  assumes "0 < W"
  shows "datetime_partitioning t t W = Inr (replicate (nat W + 1) (strptime t))"
  using assms
  by (simp add: datetime_partitioning_def Let_def divide_and_round_zero map_replicate_const
        replicate_append_same)

lemma partition_1800:
  "datetime_partitioning 0 1 1800 = Inr (map (\<lambda>idx. 556 * int idx) [0..<1800] @ [1000000])"
  by (simp add: datetime_partitioning_def strptime_def divide_and_round_def Let_def)


text \<open>
  Claim C3. For a window with \<open>start_time \<le> end_time\<close> and a worker count \<open>W > 0\<close> the
  partitioner yields \<open>W + 1\<close> boundaries, the first is the start and the last is the
  end. The \<open>W\<close> interpolated boundaries are non-decreasing among themselves. The whole
  sequence, with the end appended, is non-decreasing exactly when the rounded step times
  \<open>W - 1\<close> does not pass the length of the window, and that holds whenever
  \<open>W * (W - 1)\<close> is at most twice the length of the window in microseconds.
\<close>

theorem partition_boundaries:
  assumes "start_time \<le> end_time" and "0 < W"
  shows "\<exists>bs. datetime_partitioning start_time end_time W = Inr bs
           \<and> length bs = nat W + 1
           \<and> hd bs = strptime start_time
           \<and> last bs = strptime end_time
           \<and> sorted (butlast bs)
           \<and> (sorted bs \<longleftrightarrow>
                divide_and_round (strptime end_time - strptime start_time) W * (W - 1)
                  \<le> strptime end_time - strptime start_time)
           \<and> (W * (W - 1) \<le> 2 * (strptime end_time - strptime start_time) \<longrightarrow> sorted bs)"
proof -
  define st where "st = strptime start_time"
  define en where "en = strptime end_time"
  define d where "d = divide_and_round (en - st) W"
  define xs where "xs = map (\<lambda>idx. st + d * int idx) [0..<nat W]"
  have D: "0 \<le> en - st" using assms(1) by (simp add: st_def en_def strptime_def)
  have d0: "0 \<le> d" unfolding d_def using D assms(2) by (rule divide_and_round_nonneg)
  have n0: "0 < nat W" using assms(2) by simp
  have dp: "datetime_partitioning start_time end_time W = Inr (xs @ [en])"
    using assms(2) by (simp add: datetime_partitioning_def Let_def xs_def d_def st_def en_def)
  have len: "length (xs @ [en]) = nat W + 1" by (simp add: xs_def)
  have xs_ne: "xs \<noteq> []" using n0 by (simp add: xs_def)
  have "hd xs = st" using n0 by (simp add: xs_def hd_map upt_conv_Cons)
  then have hd: "hd (xs @ [en]) = st" using xs_ne by simp
  have lst: "last (xs @ [en]) = en" by simp
  have sb: "sorted (butlast (xs @ [en]))"
    using interpolated_sorted [OF d0, of st "nat W"] by (simp add: xs_def)
  have iff: "sorted (xs @ [en]) \<longleftrightarrow> d * (W - 1) \<le> en - st"
    using sorted_with_end [OF d0 n0, of st en] assms(2) by (auto simp: xs_def)
  have suff: "W * (W - 1) \<le> 2 * (en - st) \<longrightarrow> sorted (xs @ [en])"
    using step_fits [OF D assms(2)] iff by (simp add: d_def)
  from dp len hd lst sb iff suff show ?thesis
    unfolding st_def en_def d_def by blast
qed

text \<open>The window 00:00 to 08:00 (28800 seconds) with four workers: five boundaries,
  two hours apart.\<close>

theorem partition_boundaries_witness:
  "(0::int) \<le> 28800 \<and> (0::int) < 4
   \<and> datetime_partitioning 0 28800 4
       = Inr [0, 7200000000, 14400000000, 21600000000, 28800000000]
   \<and> sorted [0::int, 7200000000, 14400000000, 21600000000, 28800000000]
   \<and> (4::int) * (4 - 1) \<le> 2 * (strptime 28800 - strptime 0)"
proof -
  have a: "(0::int) \<le> 28800" and b: "(0::int) < 4" by simp_all
  have v: "datetime_partitioning 0 28800 4
       = Inr [0, 7200000000, 14400000000, 21600000000, 28800000000]"
    by (simp add: datetime_partitioning_def strptime_def divide_and_round_def Let_def
          upt_conv_Cons)
  from partition_boundaries [OF a b] v show ?thesis
    by (auto simp: strptime_def)
qed

text \<open>
  The claim as stated, for every \<open>W > 0\<close>, fails: a window of one second split for 1800
  workers has the step 556 microseconds (1000000 / 1800 rounded up), so the boundary of
  index 1799 lies 244 microseconds after the end of the window, which is the next boundary.
\<close>

theorem partition_not_monotone:
  "(0::int) \<le> 1 \<and> (0::int) < 1800
   \<and> projr (datetime_partitioning 0 1 1800) ! 1799 = 1000244
   \<and> projr (datetime_partitioning 0 1 1800) ! 1800 = strptime 1
   \<and> \<not> sorted (projr (datetime_partitioning 0 1 1800))"
proof -
  let ?bs = "map (\<lambda>idx. 556 * int idx) [0..<1800] @ [1000000::int]"
  have a: "?bs ! 1799 = 1000244" by (simp add: nth_append)
  have b: "?bs ! 1800 = 1000000" by (simp add: nth_append)
  have "\<not> sorted ?bs"
  proof
    assume "sorted ?bs"
    then have "?bs ! 1799 \<le> ?bs ! 1800" by (rule sorted_nth_mono) simp_all
    with a b show False by simp
  qed
  with a b show ?thesis by (simp add: partition_1800 strptime_def)
qed

section \<open>Configuration\<close>

abbreviation SITES :: string where "SITES \<equiv> ''sites''"
abbreviation LISTS :: string where "LISTS \<equiv> ''lists''"
abbreviation ITEMS :: string where "ITEMS \<equiv> ''items''"
abbreviation SITE :: string where "SITE \<equiv> ''site''"
abbreviation LIST :: string where "LIST \<equiv> ''list''"
abbreviation ITEM :: string where "ITEM \<equiv> ''item''"

definition DOCUMENT_SIZE :: nat where
  "DOCUMENT_SIZE = 100"

type_synonym fields_config = "(string \<times> string list) list"
type_synonym schema = "(string \<times> string) list"

section \<open>Schema projector\<close>

definition get_schema_fields ::
  "(string \<times> fields_config) list \<Rightarrow> (string \<Rightarrow> schema) \<Rightarrow> string \<Rightarrow> schema" where
  "get_schema_fields objects DEFAULT_SCHEMA document_name =
     (let fields = (case map_of objects document_name of None \<Rightarrow> [] | Some f \<Rightarrow> f);
          adapter_schema = DEFAULT_SCHEMA document_name
      in if fields \<noteq> [] then
           let include_fields = (case map_of fields ''include_fields'' of None \<Rightarrow> [] | Some xs \<Rightarrow> xs);
               exclude_fields = (case map_of fields ''exclude_fields'' of None \<Rightarrow> [] | Some xs \<Rightarrow> xs);
               adapter_schema =
                 (if include_fields \<noteq> [] then
                    filter (\<lambda>(key, val). val \<in> set include_fields) adapter_schema
                  else if exclude_fields \<noteq> [] then
                    filter (\<lambda>(key, val). val \<notin> set exclude_fields) adapter_schema
                  else adapter_schema)
           in dict_set adapter_schema ''id'' (if document_name = ITEMS then ''GUID'' else ''Id'')
         else adapter_schema)"

lemma set_dict_set:
  "(k, v) \<in> set (dict_set d k' v') \<Longrightarrow> k \<noteq> k' \<Longrightarrow> (k, v) \<in> set d"
  unfolding dict_set_def by (induction d) (auto split: if_splits)

lemma schema_include:
  assumes "map_of objects document_name = Some fields"
    and "map_of fields ''include_fields'' = Some inc" and "inc \<noteq> []"
  shows "get_schema_fields objects DEFAULT_SCHEMA document_name
           = dict_set (filter (\<lambda>(key, val). val \<in> set inc) (DEFAULT_SCHEMA document_name))
               ''id'' (if document_name = ITEMS then ''GUID'' else ''Id'')"
proof -
  from assms(2) have "fields \<noteq> []" by auto
  with assms show ?thesis by (simp add: get_schema_fields_def)
qed

lemma schema_exclude:
  assumes "map_of objects document_name = Some fields"
    and "map_of fields ''include_fields'' = None \<or> map_of fields ''include_fields'' = Some []"
    and "map_of fields ''exclude_fields'' = Some exc" and "exc \<noteq> []"
  shows "get_schema_fields objects DEFAULT_SCHEMA document_name
           = dict_set (filter (\<lambda>(key, val). val \<notin> set exc) (DEFAULT_SCHEMA document_name))
               ''id'' (if document_name = ITEMS then ''GUID'' else ''Id'')"
proof -
  from assms(3) have "fields \<noteq> []" by auto
  with assms show ?thesis by (auto simp add: get_schema_fields_def)
qed


lemma filter_dict_set_other:
  "filter (\<lambda>(key, val). key \<noteq> k) (dict_set d k v) = filter (\<lambda>(key, val). key \<noteq> k) d"
  unfolding dict_set_def by (induction d) auto

lemma map_of_dict_set_same: "map_of (dict_set d k v) k = Some v"
  by (simp add: dict_set_def update_conv')

lemma schema_unconfigured:
  assumes "map_of objects document_name = None \<or> map_of objects document_name = Some []"
  shows "get_schema_fields objects DEFAULT_SCHEMA document_name = DEFAULT_SCHEMA document_name"
  using assms by (auto simp: get_schema_fields_def)

lemma schema_id_injected:
  assumes "map_of objects document_name = Some fields" and "fields \<noteq> []"
  shows "map_of (get_schema_fields objects DEFAULT_SCHEMA document_name) ''id''
           = Some (if document_name = ITEMS then ''GUID'' else ''Id'')"
  using assms by (simp add: get_schema_fields_def Let_def map_of_dict_set_same)

text \<open>
  Claim C5. Let the object type have a field configuration that is present and not empty.
  Then the projector adds the entry \<open>id\<close> after it has filtered the schema, so the output
  holds \<open>id\<close> with the source attribute \<open>GUID\<close> (items) or \<open>Id\<close> (sites, lists),
  whatever the lists say. With a non-empty include-list, the entries of the output other
  than \<open>id\<close> are exactly the entries of the schema other than \<open>id\<close> whose source attribute
  is in the include-list, in the schema's order; so the source attribute of each is in the
  include-list. With no or an empty include-list and a non-empty exclude-list, they are
  exactly the entries of the schema other than \<open>id\<close> whose source attribute is not in the
  exclude-list. Two configurations with the same non-empty include-list give the same
  output: the exclude-list is ignored. An object type with no configuration, or an empty
  one, gets the schema unchanged and no entry is injected.
\<close>

theorem schema_projection:
  "(\<forall>fields. map_of objects document_name = Some fields \<and> fields \<noteq> [] \<longrightarrow>
       map_of (get_schema_fields objects DEFAULT_SCHEMA document_name) ''id''
         = Some (if document_name = ITEMS then ''GUID'' else ''Id''))
   \<and> (\<forall>fields inc. map_of objects document_name = Some fields
         \<and> map_of fields ''include_fields'' = Some inc \<and> inc \<noteq> [] \<longrightarrow>
       filter (\<lambda>(key, val). key \<noteq> ''id'')
           (get_schema_fields objects DEFAULT_SCHEMA document_name)
         = filter (\<lambda>(key, val). key \<noteq> ''id'')
             (filter (\<lambda>(key, val). val \<in> set inc) (DEFAULT_SCHEMA document_name))
       \<and> (\<forall>(key, val) \<in> set (get_schema_fields objects DEFAULT_SCHEMA document_name).
             key \<noteq> ''id'' \<longrightarrow> val \<in> set inc))
   \<and> (\<forall>fields exc. map_of objects document_name = Some fields
         \<and> (map_of fields ''include_fields'' = None
              \<or> map_of fields ''include_fields'' = Some [])
         \<and> map_of fields ''exclude_fields'' = Some exc \<and> exc \<noteq> [] \<longrightarrow>
       filter (\<lambda>(key, val). key \<noteq> ''id'')
           (get_schema_fields objects DEFAULT_SCHEMA document_name)
         = filter (\<lambda>(key, val). key \<noteq> ''id'')
             (filter (\<lambda>(key, val). val \<notin> set exc) (DEFAULT_SCHEMA document_name))
       \<and> (\<forall>(key, val) \<in> set (get_schema_fields objects DEFAULT_SCHEMA document_name).
             key \<noteq> ''id'' \<longrightarrow> val \<notin> set exc))
   \<and> (\<forall>fields inc objects' fields'. map_of objects document_name = Some fields
         \<and> map_of fields ''include_fields'' = Some inc \<and> inc \<noteq> []
         \<and> map_of objects' document_name = Some fields'
         \<and> map_of fields' ''include_fields'' = Some inc \<longrightarrow>
       get_schema_fields objects' DEFAULT_SCHEMA document_name
         = get_schema_fields objects DEFAULT_SCHEMA document_name)
   \<and> (map_of objects document_name = None \<or> map_of objects document_name = Some [] \<longrightarrow>
       get_schema_fields objects DEFAULT_SCHEMA document_name = DEFAULT_SCHEMA document_name)"
proof (intro conjI allI impI)
  fix fields
  assume "map_of objects document_name = Some fields \<and> fields \<noteq> []"
  then show "map_of (get_schema_fields objects DEFAULT_SCHEMA document_name) ''id''
         = Some (if document_name = ITEMS then ''GUID'' else ''Id'')"
    using schema_id_injected by blast
next
  fix fields inc
  assume h: "map_of objects document_name = Some fields
         \<and> map_of fields ''include_fields'' = Some inc \<and> inc \<noteq> []"
  then have h0: "map_of objects document_name = Some fields"
    and h1: "map_of fields ''include_fields'' = Some inc" and h2: "inc \<noteq> []"
    by simp_all
  note eq = schema_include [OF h0 h1 h2, of DEFAULT_SCHEMA]
  show "filter (\<lambda>(key, val). key \<noteq> ''id'')
           (get_schema_fields objects DEFAULT_SCHEMA document_name)
         = filter (\<lambda>(key, val). key \<noteq> ''id'')
             (filter (\<lambda>(key, val). val \<in> set inc) (DEFAULT_SCHEMA document_name))"
    unfolding eq by (rule filter_dict_set_other)
  show "\<forall>(key, val) \<in> set (get_schema_fields objects DEFAULT_SCHEMA document_name).
          key \<noteq> ''id'' \<longrightarrow> val \<in> set inc"
  proof (intro ballI, clarify)
    fix key val
    assume "(key, val) \<in> set (get_schema_fields objects DEFAULT_SCHEMA document_name)"
      and "key \<noteq> ''id''"
    then have "(key, val) \<in> set (filter (\<lambda>(key, val). val \<in> set inc) (DEFAULT_SCHEMA document_name))"
      unfolding eq by (rule set_dict_set)
    then show "val \<in> set inc" by simp
  qed
next
  fix fields exc
  assume h: "map_of objects document_name = Some fields
         \<and> (map_of fields ''include_fields'' = None
              \<or> map_of fields ''include_fields'' = Some [])
         \<and> map_of fields ''exclude_fields'' = Some exc \<and> exc \<noteq> []"
  then have h0: "map_of objects document_name = Some fields"
    and h1: "map_of fields ''include_fields'' = None
                  \<or> map_of fields ''include_fields'' = Some []"
    and h2: "map_of fields ''exclude_fields'' = Some exc" and h3: "exc \<noteq> []"
    by simp_all
  note eq = schema_exclude [OF h0 h1 h2 h3, of DEFAULT_SCHEMA]
  show "filter (\<lambda>(key, val). key \<noteq> ''id'')
           (get_schema_fields objects DEFAULT_SCHEMA document_name)
         = filter (\<lambda>(key, val). key \<noteq> ''id'')
             (filter (\<lambda>(key, val). val \<notin> set exc) (DEFAULT_SCHEMA document_name))"
    unfolding eq by (rule filter_dict_set_other)
  show "\<forall>(key, val) \<in> set (get_schema_fields objects DEFAULT_SCHEMA document_name).
          key \<noteq> ''id'' \<longrightarrow> val \<notin> set exc"
  proof (intro ballI, clarify)
    fix key val
    assume m: "(key, val) \<in> set (get_schema_fields objects DEFAULT_SCHEMA document_name)"
      and k: "key \<noteq> ''id''" and v: "val \<in> set exc"
    from m k
    have "(key, val) \<in> set (filter (\<lambda>(key, val). val \<notin> set exc) (DEFAULT_SCHEMA document_name))"
      unfolding eq by (rule set_dict_set)
    with v show False by simp
  qed
next
  fix fields inc objects' fields'
  assume h: "map_of objects document_name = Some fields
         \<and> map_of fields ''include_fields'' = Some inc \<and> inc \<noteq> []
         \<and> map_of objects' document_name = Some fields'
         \<and> map_of fields' ''include_fields'' = Some inc"
  then have h0: "map_of objects document_name = Some fields"
    and h1: "map_of fields ''include_fields'' = Some inc" and h2: "inc \<noteq> []"
    and h3: "map_of objects' document_name = Some fields'"
    and h4: "map_of fields' ''include_fields'' = Some inc"
    by simp_all
  show "get_schema_fields objects' DEFAULT_SCHEMA document_name
              = get_schema_fields objects DEFAULT_SCHEMA document_name"
    unfolding schema_include [OF h0 h1 h2] schema_include [OF h3 h4 h2] ..
next
  assume "map_of objects document_name = None \<or> map_of objects document_name = Some []"
  then show "get_schema_fields objects DEFAULT_SCHEMA document_name
               = DEFAULT_SCHEMA document_name"
    by (rule schema_unconfigured)
qed

text \<open>The scenario of the specification: the raw schema \<open>{Title: Title, Created: Created}\<close>
  of a list.\<close>

definition scenario_schema :: "string \<Rightarrow> schema" where
  "scenario_schema document_name = [(''Title'', ''Title''), (''Created'', ''Created'')]"

lemma scenario_include:
  "get_schema_fields [(LISTS, [(''include_fields'', [''Title''])])] scenario_schema LISTS
     = [(''Title'', ''Title''), (''id'', ''Id'')]"
  by (simp add: get_schema_fields_def scenario_schema_def dict_set_def)

lemma scenario_exclude_id:
  "get_schema_fields [(LISTS, [(''exclude_fields'', [''Id''])])] scenario_schema LISTS
     = [(''Title'', ''Title''), (''Created'', ''Created''), (''id'', ''Id'')]"
  by (simp add: get_schema_fields_def scenario_schema_def dict_set_def)

text \<open>With the include-list \<open>[Title]\<close> the entries other than \<open>id\<close> are \<open>{Title: Title}\<close>
  and \<open>id\<close> maps to \<open>Id\<close>; the same include-list with an exclude-list beside it gives
  the same output.\<close>

theorem schema_projection_witness:
  "map_of [(LISTS, [(''include_fields'', [''Title''])])] LISTS
     = Some [(''include_fields'', [''Title''])]
   \<and> map_of (get_schema_fields [(LISTS, [(''include_fields'', [''Title''])])]
               scenario_schema LISTS) ''id'' = Some ''Id''
   \<and> filter (\<lambda>(key, val). key \<noteq> ''id'')
        (get_schema_fields [(LISTS, [(''include_fields'', [''Title''])])] scenario_schema LISTS)
      = [(''Title'', ''Title'')]
   \<and> get_schema_fields
       [(LISTS, [(''include_fields'', [''Title'']), (''exclude_fields'', [''Title''])])]
       scenario_schema LISTS
     = get_schema_fields [(LISTS, [(''include_fields'', [''Title''])])] scenario_schema LISTS"
proof -
  let ?objects = "[(LISTS, [(''include_fields'', [''Title''])])]"
  let ?fields = "[(''include_fields'', [''Title''])]"
  have m: "map_of ?objects LISTS = Some ?fields" by simp
  note t = schema_projection [of ?objects LISTS scenario_schema]
  have a: "map_of (get_schema_fields ?objects scenario_schema LISTS) ''id'' = Some ''Id''"
    using t [THEN conjunct1, rule_format, of ?fields] by simp
  have b: "filter (\<lambda>(key, val). key \<noteq> ''id'')
             (get_schema_fields ?objects scenario_schema LISTS)
           = filter (\<lambda>(key, val). key \<noteq> ''id'')
               (filter (\<lambda>(key, val). val \<in> set [''Title'']) (scenario_schema LISTS))"
    using t [THEN conjunct2, THEN conjunct1, rule_format, of ?fields "[''Title'']"] by simp
  have c: "get_schema_fields
       [(LISTS, [(''include_fields'', [''Title'']), (''exclude_fields'', [''Title''])])]
       scenario_schema LISTS
     = get_schema_fields ?objects scenario_schema LISTS"
    using t [THEN conjunct2, THEN conjunct2, THEN conjunct2, THEN conjunct1, rule_format,
        of ?fields "[''Title'']"
          "[(LISTS, [(''include_fields'', [''Title'']), (''exclude_fields'', [''Title''])])]"
          "[(''include_fields'', [''Title'']), (''exclude_fields'', [''Title''])]"]
    by simp
  from b have b': "filter (\<lambda>(key, val). key \<noteq> ''id'')
             (get_schema_fields ?objects scenario_schema LISTS) = [(''Title'', ''Title'')]"
    by (simp add: scenario_schema_def)
  from m a b' c show ?thesis by simp
qed

text \<open>
  The claim as stated fails on the injected entry: with the include-list \<open>[Title]\<close> the
  output's values hold \<open>Id\<close>, which the include-list does not; with the exclude-list
  \<open>[Id]\<close> the output's values still hold \<open>Id\<close>.
\<close>

theorem schema_projection_id_outside_lists:
  "''Id'' \<in> snd ` set (get_schema_fields [(LISTS, [(''include_fields'', [''Title''])])]
                          scenario_schema LISTS)
   \<and> ''Id'' \<notin> set [''Title'']
   \<and> ''Id'' \<in> snd ` set (get_schema_fields [(LISTS, [(''exclude_fields'', [''Id''])])]
                          scenario_schema LISTS)
   \<and> ''Id'' \<in> set [''Id'']"
  by (simp add: scenario_include scenario_exclude_id)

section \<open>Identity registry\<close>

record ids =
  ids_sites :: "(pyval \<times> pyval) list"
  ids_lists :: "(pyval \<times> (pyval \<times> pyval) list) list"
  ids_list_items :: "(pyval \<times> (pyval \<times> pyval list) list) list"

definition empty_ids :: ids where
  "empty_ids = \<lparr>ids_sites = [], ids_lists = [], ids_list_items = []\<rparr>"

definition registry_size :: "ids \<Rightarrow> nat" where
  "registry_size r = length (ids_sites r) + length (ids_lists r) + length (ids_list_items r)"

lemma length_update_fresh:
  "k \<notin> fst ` set d \<Longrightarrow> length (AList.update k v d) = Suc (length d)"
  by (induction d) auto


lemma length_dict_update:
  "distinct (map fst e) \<Longrightarrow> fst ` set d \<inter> fst ` set e = {}
     \<Longrightarrow> length (dict_update d e) = length d + length e"
  unfolding dict_update_def
proof (induction e arbitrary: d)
  case Nil
  then show ?case by simp
next
  case (Cons a e)
  obtain k v where a: "a = (k, v)" by (cases a)
  have fresh: "k \<notin> fst ` set d" using Cons.prems(2) a by auto
  have "fst ` set (AList.update k v d) \<inter> fst ` set e = {}"
    using Cons.prems a by (auto simp: dom_update)
  moreover have "distinct (map fst e)" using Cons.prems(1) by simp
  ultimately have "length (fold (\<lambda>(k, v). AList.update k v) e (AList.update k v d))
      = length (AList.update k v d) + length e"
    by (rule Cons.IH [rotated])
  with fresh a show ?case by (simp add: length_update_fresh)
qed



definition disjoint_ids :: "ids \<Rightarrow> ids \<Rightarrow> bool" where
  "disjoint_ids a b \<longleftrightarrow>
     fst ` set (ids_sites a) \<inter> fst ` set (ids_sites b) = {}
     \<and> fst ` set (ids_lists a) \<inter> fst ` set (ids_lists b) = {}
     \<and> fst ` set (ids_list_items a) \<inter> fst ` set (ids_list_items b) = {}"

lemma disjoint_ids_sym: "disjoint_ids a b \<Longrightarrow> disjoint_ids b a"
  by (auto simp: disjoint_ids_def)

lemma registry_size_empty: "registry_size empty_ids = 0"
  by (simp add: registry_size_def empty_ids_def)


lemma length_dict_update_empty:
  "distinct (map fst e) \<Longrightarrow> length (dict_update [] e) = length e"
  using length_dict_update [of e "[]"] by simp

section \<open>Collaborators of the crawler\<close>

text \<open>
  The source endpoint, the sink and the content extractor are outside the repository;
  the crawler calls them through \<^verbatim>\<open>sharepoint_client.get\<close>, \<^verbatim>\<open>permissions.fetch_users\<close>,
  \<^verbatim>\<open>ws_client\<close> and \<^verbatim>\<open>extract\<close>. Each is a parameter of the model, kept in one record.

  A response of the source endpoint is falsy (\<open>NoResponse\<close>), or its \<^verbatim>\<open>json()\<close> raises
  \<^verbatim>\<open>ValueError\<close> (\<open>BadJson\<close>), or it decodes to a document whose
  \<^verbatim>\<open>.get("d", {}).get("results")\<close> is the given list of objects, \<open>None\<close> when absent.
\<close>

datatype response = NoResponse | BadJson | Json "pydict list option"

datatype role_query =
    SiteRoles pyval
  | ListRoles pyval pyval
  | ItemRoles pyval pyval pyval

text \<open>A call on the sink: a batch of documents, or one grant (user, permission).
  A batch call raises or returns, per document, whether its \<^verbatim>\<open>errors\<close> list is non-empty.\<close>

datatype sink_call =
    IndexDocuments "pydict list"
  | AddUserPermissions pyval pyval

datatype sink_reply = SinkRaises | SinkResults "bool list"

record env =
  objects :: "(string \<times> fields_config) list"
  DEFAULT_SCHEMA :: "string \<Rightarrow> schema"
  enable_permission :: bool
  user_mapping :: "(string \<times> string) list"
  sp_sites :: "string \<Rightarrow> int \<Rightarrow> int \<Rightarrow> response"
  sp_lists :: "pyval \<Rightarrow> int \<Rightarrow> int \<Rightarrow> response"
  sp_items :: "pyval \<Rightarrow> pyval \<Rightarrow> int \<Rightarrow> int \<Rightarrow> response"
  sp_attachments :: "pyval \<Rightarrow> pyval \<Rightarrow> response"
  sp_file :: "pyval \<Rightarrow> pyval \<Rightarrow> bool \<times> string"
  sp_roles :: "role_query \<Rightarrow> response"
  extract_text :: "string \<Rightarrow> string option"
  ws_index_documents :: "sink_call list \<Rightarrow> pydict list \<Rightarrow> sink_reply"
  ws_add_user_permissions :: "sink_call list \<Rightarrow> pyval \<Rightarrow> pyval \<Rightarrow> bool"
  list_url :: "pyval \<Rightarrow> string \<Rightarrow> string"
  item_url :: "pyval \<Rightarrow> string \<Rightarrow> pyval \<Rightarrow> string"

text \<open>The state of one \<^verbatim>\<open>FetchIndex\<close> object: its window, its failure flag, and the calls it
  has made on the sink so far. The sink's answers may depend on those earlier calls.\<close>

record worker =
  start_time :: int
  end_time :: int
  is_error :: bool
  sink_calls :: "sink_call list"

section \<open>Sequencing\<close>

definition and_then :: "'e + 'a \<Rightarrow> ('a \<Rightarrow> 'e + 'b) \<Rightarrow> 'e + 'b" where
  "and_then m f = (case m of Inl err \<Rightarrow> Inl err | Inr x \<Rightarrow> f x)"

fun fold_err :: "('a \<Rightarrow> 's \<Rightarrow> 'e + 's) \<Rightarrow> 'a list \<Rightarrow> 's \<Rightarrow> 'e + 's" where
  "fold_err f [] s = Inr s"
| "fold_err f (x # xs) s = (case f x s of Inl err \<Rightarrow> Inl err | Inr s' \<Rightarrow> fold_err f xs s')"

text \<open>Lists and dictionaries are not hashable: using one as a dictionary key raises
  \<^verbatim>\<open>TypeError\<close>.\<close>

definition hashable :: "pyval \<Rightarrow> bool" where
  "hashable v = (case v of PList xs \<Rightarrow> False | PDict d \<Rightarrow> False | _ \<Rightarrow> True)"

definition key_set :: "(pyval \<times> 'v) list \<Rightarrow> pyval \<Rightarrow> 'v \<Rightarrow> py_error + (pyval \<times> 'v) list" where
  "key_set d k v = (if hashable k then Inr (dict_set d k v) else Inl TypeError)"

section \<open>Responses\<close>

definition check_response :: "response \<Rightarrow> string \<Rightarrow> pydict list option" where
  "check_response response param_name =
     (case response of
        NoResponse \<Rightarrow>
          (if param_name = ''attachment'' then None
           else if param_name = SITES then None else Some [])
      | BadJson \<Rightarrow> (if param_name = SITES then None else Some [])
      | Json response_data \<Rightarrow> response_data)"

definition results_of :: "pydict list option \<Rightarrow> pydict list" where
  "results_of response_data = (case response_data of None \<Rightarrow> [] | Some xs \<Rightarrow> xs)"

section \<open>Submitting documents\<close>

text \<open>
  \<^verbatim>\<open>index_document\<close> cuts the staged documents into chunks of \<open>DOCUMENT_SIZE\<close> and
  submits them in order inside one \<^verbatim>\<open>try\<close>: a raising call sets the failure flag and
  ends the loop. Documents the sink rejects are only left out of a logged count. With no
  document at all, the logged counter is unbound, the \<^verbatim>\<open>UnboundLocalError\<close> is caught by
  the same handler, and the flag is set.
\<close>

definition chunks :: "nat \<Rightarrow> 'a list \<Rightarrow> 'a list list" where
  "chunks n document =
     map (\<lambda>i. take n (drop (i * n) document)) [0..<(length document + n - 1) div n]"

fun submit_chunks :: "env \<Rightarrow> pydict list list \<Rightarrow> worker \<Rightarrow> worker" where
  "submit_chunks e [] w = w"
| "submit_chunks e (chunk # rest) w =
     (let w' = w\<lparr>sink_calls := sink_calls w @ [IndexDocuments chunk]\<rparr>
      in case ws_index_documents e (sink_calls w) chunk of
           SinkRaises \<Rightarrow> w'\<lparr>is_error := True\<rparr>
         | SinkResults results \<Rightarrow> submit_chunks e rest w')"

definition index_document :: "env \<Rightarrow> pydict list \<Rightarrow> worker \<Rightarrow> worker" where
  "index_document e document w =
     (if document \<noteq> [] then submit_chunks e (chunks DOCUMENT_SIZE document) w
      else w\<lparr>is_error := True\<rparr>)"

section \<open>Permission resolver\<close>

text \<open>
  \<^verbatim>\<open>workplace_add_permission\<close> pushes one grant; a raising call sets the failure flag.
  The identity-substitution table is read from the mapping sheet, a later row replacing
  an earlier one with the same name; \<^verbatim>\<open>rows.get(name, name)\<close> looks a name up.
\<close>

definition workplace_add_permission :: "env \<Rightarrow> pyval \<Rightarrow> pyval \<Rightarrow> worker \<Rightarrow> worker" where
  "workplace_add_permission e user_name permission w =
     (let w' = w\<lparr>sink_calls := sink_calls w @ [AddUserPermissions user_name permission]\<rparr>
      in if ws_add_user_permissions e (sink_calls w) user_name permission
         then w'\<lparr>is_error := True\<rparr> else w')"

definition rows_of :: "(string \<times> string) list \<Rightarrow> (string \<times> string) list" where
  "rows_of csv_rows = dict_update [] csv_rows"

definition rows_get :: "(string \<times> string) list \<Rightarrow> pyval \<Rightarrow> py_error + pyval" where
  "rows_get rows name =
     (if hashable name then
        (case name of
           PStr s \<Rightarrow> (case map_of rows s of None \<Rightarrow> Inr name | Some v \<Rightarrow> Inr (PStr v))
         | _ \<Rightarrow> Inr name)
      else Inl TypeError)"

definition grant_user :: "env \<Rightarrow> (string \<times> string) list \<Rightarrow> pyval \<Rightarrow> pyval \<Rightarrow> worker
    \<Rightarrow> py_error + worker" where
  "grant_user e rows title user w =
     and_then (py_getitem user ''Title'') (\<lambda>user_title.
     and_then (rows_get rows user_title) (\<lambda>user_name.
       Inr (workplace_add_permission e user_name title w)))"

definition grant_role :: "env \<Rightarrow> (string \<times> string) list \<Rightarrow> pydict \<Rightarrow> pyval list \<times> worker
    \<Rightarrow> py_error + pyval list \<times> worker" where
  "grant_role e rows role gw =
     and_then (dict_item role ''Member'') (\<lambda>member.
     and_then (py_getitem member ''Title'') (\<lambda>title.
     and_then (py_get member ''Users'') (\<lambda>users.
       if truthy users then
         and_then (py_get users ''results'') (\<lambda>results.
         and_then (py_iter results) (\<lambda>us.
         and_then (fold_err (grant_user e rows title) us (snd gw)) (\<lambda>w'.
           Inr (fst gw @ [title], w'))))
       else
         and_then (rows_get rows title) (\<lambda>user_name.
           Inr (fst gw @ [title], workplace_add_permission e user_name user_name (snd gw))))))"

definition get_roles :: "env \<Rightarrow> string \<Rightarrow> pyval \<Rightarrow> pyval \<Rightarrow> pyval \<Rightarrow> pyval
    \<Rightarrow> py_error + response" where
  "get_roles e key site list_url_v list_name itemid =
     (if key = SITES then Inr (sp_roles e (SiteRoles site))
      else if key = LISTS then Inr (sp_roles e (ListRoles list_url_v list_name))
      else if key = ITEMS then Inr (sp_roles e (ItemRoles list_url_v list_name itemid))
      else Inl UnboundLocalError)"

definition index_permissions :: "env \<Rightarrow> string \<Rightarrow> pyval \<Rightarrow> pyval \<Rightarrow> pyval \<Rightarrow> pyval
    \<Rightarrow> worker \<Rightarrow> py_error + pyval list \<times> worker" where
  "index_permissions e key site list_name list_url_v itemid w =
     and_then (get_roles e key site list_url_v list_name itemid) (\<lambda>roles_response.
       case check_response roles_response ''roles'' of
         None \<Rightarrow> Inl TypeError
       | Some roles \<Rightarrow> fold_err (grant_role e (rows_of (user_mapping e))) roles ([], w))"


subsection \<open>Properties of the permission resolver\<close>

lemma and_then_Inr [simp]: "and_then (Inr x) f = f x"
  by (simp add: and_then_def)

lemma and_then_Inl [simp]: "and_then (Inl err) f = Inl err"
  by (simp add: and_then_def)

lemma and_then_eq_Inr:
  "and_then m f = Inr y \<Longrightarrow> \<exists>x. m = Inr x \<and> f x = Inr y"
  by (cases m) simp_all

lemma sink_calls_add_permission [simp]:
  "sink_calls (workplace_add_permission e user_name permission w)
     = sink_calls w @ [AddUserPermissions user_name permission]"
  by (simp add: workplace_add_permission_def Let_def)

text \<open>The substitution on a name that is a string.\<close>

definition substituted :: "(string \<times> string) list \<Rightarrow> string \<Rightarrow> string" where
  "substituted rows name = (case map_of rows name of None \<Rightarrow> name | Some v \<Rightarrow> v)"

lemma rows_get_str: "rows_get rows (PStr n) = Inr (PStr (substituted rows n))"
  by (simp add: rows_get_def hashable_def substituted_def split: option.splits)

lemma map_of_dict_update: "map_of (dict_update d e) = map_of d ++ map_of (rev e)"
  unfolding dict_update_def
proof (induction e arbitrary: d)
  case Nil
  then show ?case by simp
next
  case (Cons a e)
  obtain k v where a: "a = (k, v)" by (cases a)
  have "map_of (fold (\<lambda>(k, v). AList.update k v) e (AList.update k v d))
          = map_of (AList.update k v d) ++ map_of (rev e)"
    by (rule Cons.IH)
  also have "\<dots> = map_of d ++ map_of (rev e @ [(k, v)])"
    by (simp add: update_conv' map_add_upd_left fun_eq_iff map_add_def split: option.splits)
  finally show ?case by (simp add: a)
qed

lemma map_of_rows_of: "map_of (rows_of csv_rows) = map_of (rev csv_rows)"
  by (simp add: rows_of_def map_of_dict_update)

lemma substituted_rows_of:
  "substituted (rows_of csv_rows) n
     = (case map_of (rev csv_rows) n of None \<Rightarrow> n | Some v \<Rightarrow> v)"
  by (simp add: substituted_def map_of_rows_of)

text \<open>
  The shape of a role assignment as the source endpoint delivers it: a \<open>Member\<close> with a
  \<open>Title\<close>, and either a non-empty \<open>Users\<close> object whose \<open>results\<close> are users with the
  given names as titles, or no \<open>Users\<close> object (absent, \<open>None\<close> or empty).
\<close>

definition principal_role :: "pydict \<Rightarrow> string \<Rightarrow> string list option \<Rightarrow> bool" where
  "principal_role role title users =
     (case dict_item role ''Member'' of
        Inr (PDict member) \<Rightarrow>
          dict_item member ''Title'' = Inr (PStr title)
          \<and> (case users of
                None \<Rightarrow> \<not> truthy (dict_get member ''Users'')
              | Some names \<Rightarrow>
                  (case dict_get member ''Users'' of
                     PDict u \<Rightarrow>
                       u \<noteq> []
                       \<and> (case dict_get u ''results'' of
                            PList us \<Rightarrow>
                              map (\<lambda>x. py_getitem x ''Title'') us
                                = map (\<lambda>n. Inr (PStr n)) names
                          | _ \<Rightarrow> False)
                   | _ \<Rightarrow> False))
      | _ \<Rightarrow> False)"

lemma grant_users_pushes:
  assumes "map (\<lambda>u. py_getitem u ''Title'') us = map (\<lambda>n. Inr (PStr n)) names"
  shows "\<exists>w'. fold_err (grant_user e rows title) us w = Inr w'
           \<and> sink_calls w' = sink_calls w
                @ map (\<lambda>n. AddUserPermissions (PStr (substituted rows n)) title) names"
  using assms
proof (induction us arbitrary: names w)
  case Nil
  then show ?case by simp
next
  case (Cons u us)
  then obtain n ns where names: "names = n # ns"
    and u: "py_getitem u ''Title'' = Inr (PStr n)"
    and rest: "map (\<lambda>u. py_getitem u ''Title'') us = map (\<lambda>n. Inr (PStr n)) ns"
    by (cases names) auto
  let ?w1 = "workplace_add_permission e (PStr (substituted rows n)) title w"
  have step: "grant_user e rows title u w = Inr ?w1"
    by (simp add: grant_user_def u rows_get_str)
  from Cons.IH [OF rest, of ?w1] obtain w' where
    "fold_err (grant_user e rows title) us ?w1 = Inr w'"
    "sink_calls w' = sink_calls ?w1
        @ map (\<lambda>n. AddUserPermissions (PStr (substituted rows n)) title) ns"
    by blast
  then show ?case by (simp add: step names)
qed

lemma grant_role_pushes:
  assumes "principal_role role title users"
  shows "\<exists>w'. grant_role e rows role (groups, w) = Inr (groups @ [PStr title], w')
           \<and> sink_calls w' = sink_calls w
                @ (case users of
                     Some names \<Rightarrow>
                       map (\<lambda>n. AddUserPermissions (PStr (substituted rows n)) (PStr title))
                         names
                   | None \<Rightarrow>
                       [AddUserPermissions (PStr (substituted rows title))
                          (PStr (substituted rows title))])"
proof -
  from assms obtain member where
    m: "dict_item role ''Member'' = Inr (PDict member)"
    and t: "dict_item member ''Title'' = Inr (PStr title)"
    and u: "case users of
              None \<Rightarrow> \<not> truthy (dict_get member ''Users'')
            | Some names \<Rightarrow>
                (case dict_get member ''Users'' of
                   PDict u \<Rightarrow>
                     u \<noteq> []
                     \<and> (case dict_get u ''results'' of
                          PList us \<Rightarrow>
                            map (\<lambda>x. py_getitem x ''Title'') us
                              = map (\<lambda>n. Inr (PStr n)) names
                        | _ \<Rightarrow> False)
                 | _ \<Rightarrow> False)"
    by (auto simp: principal_role_def split: sum.splits pyval.splits)
  show ?thesis
  proof (cases users)
    case None
    with u have "\<not> truthy (dict_get member ''Users'')" by simp
    with m t None show ?thesis by (simp add: grant_role_def rows_get_str)
  next
    case (Some names)
    with u obtain d us where
      d: "dict_get member ''Users'' = PDict d" "d \<noteq> []"
      and r: "dict_get d ''results'' = PList us"
      and titles: "map (\<lambda>x. py_getitem x ''Title'') us = map (\<lambda>n. Inr (PStr n)) names"
      by (auto split: pyval.splits)
    from grant_users_pushes [OF titles, of e rows "PStr title" w] obtain w' where
      w': "fold_err (grant_user e rows (PStr title)) us w = Inr w'"
          "sink_calls w' = sink_calls w
             @ map (\<lambda>n. AddUserPermissions (PStr (substituted rows n)) (PStr title)) names"
      by blast
    have "grant_role e rows role (groups, w) = Inr (groups @ [PStr title], w')"
      using m t d r w'(1) by (simp add: grant_role_def)
    with w'(2) Some show ?thesis by simp
  qed
qed

lemma grant_roles_pushes:
  assumes "list_all2 (\<lambda>role p. principal_role role (fst p) (snd p)) roles principals"
  shows "\<exists>w'. fold_err (grant_role e rows) roles (groups, w)
             = Inr (groups @ map (\<lambda>p. PStr (fst p)) principals, w')
           \<and> sink_calls w' = sink_calls w
                @ concat (map (\<lambda>p. case snd p of
                     Some names \<Rightarrow>
                       map (\<lambda>n. AddUserPermissions (PStr (substituted rows n)) (PStr (fst p)))
                         names
                   | None \<Rightarrow>
                       [AddUserPermissions (PStr (substituted rows (fst p)))
                          (PStr (substituted rows (fst p)))]) principals)"
  using assms
proof (induction roles principals arbitrary: groups w rule: list_all2_induct)
  case Nil
  then show ?case by simp
next
  case (Cons role roles p principals)
  from grant_role_pushes [OF Cons.hyps(1), of e rows groups w] obtain w1 where
    step: "grant_role e rows role (groups, w) = Inr (groups @ [PStr (fst p)], w1)"
    and calls1: "sink_calls w1 = sink_calls w
          @ (case snd p of
               Some names \<Rightarrow>
                 map (\<lambda>n. AddUserPermissions (PStr (substituted rows n)) (PStr (fst p))) names
             | None \<Rightarrow>
                 [AddUserPermissions (PStr (substituted rows (fst p)))
                    (PStr (substituted rows (fst p)))])"
    by blast
  from Cons.IH [of "groups @ [PStr (fst p)]" w1] obtain w' where
    rest: "fold_err (grant_role e rows) roles (groups @ [PStr (fst p)], w1)
             = Inr ((groups @ [PStr (fst p)]) @ map (\<lambda>p. PStr (fst p)) principals, w')"
    and calls: "sink_calls w' = sink_calls w1
                @ concat (map (\<lambda>p. case snd p of
                     Some names \<Rightarrow>
                       map (\<lambda>n. AddUserPermissions (PStr (substituted rows n)) (PStr (fst p)))
                         names
                   | None \<Rightarrow>
                       [AddUserPermissions (PStr (substituted rows (fst p)))
                          (PStr (substituted rows (fst p)))]) principals)"
    by blast
  from step rest calls calls1 show ?case by simp
qed

text \<open>
  Claim C6. Let the source deliver, for the object, a list of role assignments of the shape
  above. Then \<^verbatim>\<open>index_permissions\<close> returns the titles of the principals and pushes, in the
  order of the list: for a principal with a non-empty \<open>Users\<close> object, one grant per user
  of its \<open>results\<close>, for the substituted name of the user with the title of the principal
  as permission, so \<open>K\<close> users give exactly \<open>K\<close> pushes and an empty \<open>results\<close> gives
  none; for a principal without a \<open>Users\<close> object exactly one grant, whose user and
  permission are the substituted title of the principal. The number of pushes is the sum
  of these counts. The substitution is the table read from the mapping sheet, the last row
  of a name winning; a name with no row passes through unchanged.
\<close>

theorem permission_expansion:
  assumes "get_roles e key site list_url_v list_name itemid = Inr roles_response"
    and "check_response roles_response ''roles'' = Some roles"
    and "list_all2 (\<lambda>role p. principal_role role (fst p) (snd p)) roles principals"
  shows "\<exists>w'. index_permissions e key site list_name list_url_v itemid w
             = Inr (map (\<lambda>p. PStr (fst p)) principals, w')
           \<and> sink_calls w' = sink_calls w
                @ concat (map (\<lambda>p. case snd p of
                     Some names \<Rightarrow>
                       map (\<lambda>n. AddUserPermissions
                                 (PStr (substituted (rows_of (user_mapping e)) n))
                                 (PStr (fst p))) names
                   | None \<Rightarrow>
                       [AddUserPermissions
                          (PStr (substituted (rows_of (user_mapping e)) (fst p)))
                          (PStr (substituted (rows_of (user_mapping e)) (fst p)))])
                   principals)
           \<and> length (sink_calls w') = length (sink_calls w)
                + sum_list (map (\<lambda>p. case snd p of Some names \<Rightarrow> length names | None \<Rightarrow> 1)
                    principals)
           \<and> (\<forall>n. substituted (rows_of (user_mapping e)) n
                  = (case map_of (rev (user_mapping e)) n of None \<Rightarrow> n | Some v \<Rightarrow> v))"
proof -
  let ?rows = "rows_of (user_mapping e)"
  let ?pushes = "\<lambda>p. case snd p of
                     Some names \<Rightarrow>
                       map (\<lambda>n. AddUserPermissions (PStr (substituted ?rows n)) (PStr (fst p)))
                         names
                   | None \<Rightarrow>
                       [AddUserPermissions (PStr (substituted ?rows (fst p)))
                          (PStr (substituted ?rows (fst p)))]"
  from grant_roles_pushes [OF assms(3), of e ?rows "[]" w] obtain w' where
    run: "fold_err (grant_role e ?rows) roles ([], w)
            = Inr (map (\<lambda>p. PStr (fst p)) principals, w')"
    and calls: "sink_calls w' = sink_calls w @ concat (map ?pushes principals)"
    by auto
  have ip: "index_permissions e key site list_name list_url_v itemid w
              = Inr (map (\<lambda>p. PStr (fst p)) principals, w')"
    using assms(1,2) run by (simp add: index_permissions_def)
  have "length (concat (map ?pushes principals))
          = sum_list (map (\<lambda>p. case snd p of Some names \<Rightarrow> length names | None \<Rightarrow> 1)
              principals)"
    by (induction principals) (auto split: option.splits)
  with calls have len: "length (sink_calls w') = length (sink_calls w)
                + sum_list (map (\<lambda>p. case snd p of Some names \<Rightarrow> length names | None \<Rightarrow> 1)
                    principals)"
    by simp
  from ip calls len substituted_rows_of show ?thesis by blast
qed

text \<open>A source that answers nothing and a sink that accepts everything; the examples
  below change the fields they need.\<close>

definition quiet_env :: env where
  "quiet_env =
     \<lparr>objects = [(SITES, []), (LISTS, []), (ITEMS, [])],
      DEFAULT_SCHEMA = (\<lambda>document_name. [(''title'', ''Title''), (''id'', ''Id'')]),
      enable_permission = False,
      user_mapping = [],
      sp_sites = (\<lambda>collection s t. NoResponse),
      sp_lists = (\<lambda>site s t. NoResponse),
      sp_items = (\<lambda>list_path title s t. NoResponse),
      sp_attachments = (\<lambda>list_path title. NoResponse),
      sp_file = (\<lambda>list_path file_relative_url. (False, [])),
      sp_roles = (\<lambda>q. NoResponse),
      extract_text = (\<lambda>content. Some content),
      ws_index_documents = (\<lambda>calls chunk. SinkResults (map (\<lambda>d. False) chunk)),
      ws_add_user_permissions = (\<lambda>calls user_name permission. False),
      list_url = (\<lambda>site title. title),
      item_url = (\<lambda>list_path title item_id. title)\<rparr>"

definition fresh_worker :: "int \<Rightarrow> int \<Rightarrow> worker" where
  "fresh_worker s t = \<lparr>start_time = s, end_time = t, is_error = False, sink_calls = []\<rparr>"

text \<open>Three role assignments: a group of two users, a single user, and a group that has
  no user. The mapping sheet has two rows for the name \<open>alice\<close>.\<close>

definition team_members :: pydict where
  "team_members =
     [(''Member'', PDict
        [(''Title'', PStr ''Team Members''),
         (''Users'', PDict [(''results'',
            PList [PDict [(''Title'', PStr ''alice'')], PDict [(''Title'', PStr ''bob'')]])])])]"

definition carol :: pydict where
  "carol = [(''Member'', PDict [(''Title'', PStr ''carol'')])]"

definition visitors :: pydict where
  "visitors =
     [(''Member'', PDict
        [(''Title'', PStr ''Visitors''),
         (''Users'', PDict [(''results'', PList [])])])]"

definition roles_env :: "pydict list \<Rightarrow> env" where
  "roles_env roles = quiet_env
     \<lparr>user_mapping := [(''alice'', ''a@old''), (''alice'', ''alice@corp'')],
      sp_roles := (\<lambda>q. Json (Some roles))\<rparr>"

theorem permission_expansion_witness:
  "(case index_permissions (roles_env [team_members, carol, visitors]) SITES
           (PStr ''/sites/c/a'') PNone PNone PNone (fresh_worker 0 3600) of
      Inl err \<Rightarrow> False
    | Inr (groups, w) \<Rightarrow>
        groups = [PStr ''Team Members'', PStr ''carol'', PStr ''Visitors'']
        \<and> sink_calls w =
            [AddUserPermissions (PStr ''alice@corp'') (PStr ''Team Members''),
             AddUserPermissions (PStr ''bob'') (PStr ''Team Members''),
             AddUserPermissions (PStr ''carol'') (PStr ''carol'')])"
proof -
  let ?e = "roles_env [team_members, carol, visitors]"
  let ?ps = "[(''Team Members'', Some [''alice'', ''bob'']), (''carol'', None),
              (''Visitors'', Some [])]"
  have g: "get_roles ?e SITES (PStr ''/sites/c/a'') PNone PNone PNone
             = Inr (Json (Some [team_members, carol, visitors]))"
    by (simp add: get_roles_def roles_env_def)
  have c: "check_response (Json (Some [team_members, carol, visitors])) ''roles''
             = Some [team_members, carol, visitors]"
    by (simp add: check_response_def)
  have s: "list_all2 (\<lambda>role p. principal_role role (fst p) (snd p))
             [team_members, carol, visitors] ?ps"
    by (simp add: principal_role_def team_members_def carol_def visitors_def dict_item_def
          dict_get_def)
  from permission_expansion [OF g c s, of "fresh_worker 0 3600"] obtain w' where
    run: "index_permissions ?e SITES (PStr ''/sites/c/a'') PNone PNone PNone
            (fresh_worker 0 3600) = Inr (map (\<lambda>p. PStr (fst p)) ?ps, w')"
    and calls: "sink_calls w' = sink_calls (fresh_worker 0 3600)
                @ concat (map (\<lambda>p. case snd p of
                     Some names \<Rightarrow>
                       map (\<lambda>n. AddUserPermissions
                                 (PStr (substituted (rows_of (user_mapping ?e)) n))
                                 (PStr (fst p))) names
                   | None \<Rightarrow>
                       [AddUserPermissions
                          (PStr (substituted (rows_of (user_mapping ?e)) (fst p)))
                          (PStr (substituted (rows_of (user_mapping ?e)) (fst p)))]) ?ps)"
    by blast
  have sub: "substituted (rows_of (user_mapping ?e)) ''alice'' = ''alice@corp''"
    "substituted (rows_of (user_mapping ?e)) ''bob'' = ''bob''"
    "substituted (rows_of (user_mapping ?e)) ''carol'' = ''carol''"
    by (simp_all add: substituted_rows_of roles_env_def)
  from run calls sub show ?thesis by (simp add: fresh_worker_def)
qed

text \<open>
  The claim as stated gives exactly one push to every principal that has no member users.
  The group \<open>Visitors\<close> has none, but it carries a \<open>Users\<close> object, which is truthy: the
  resolver walks its empty \<open>results\<close> and pushes nothing.
\<close>

theorem empty_group_gets_no_grant:
  "dict_get (case dict_get visitors ''Member'' of PDict member \<Rightarrow> member | _ \<Rightarrow> [])
       ''Users'' = PDict [(''results'', PList [])]
   \<and> (case index_permissions (roles_env [visitors]) SITES (PStr ''/sites/c/a'')
           PNone PNone PNone (fresh_worker 0 3600) of
        Inl err \<Rightarrow> False
      | Inr (groups, w) \<Rightarrow> groups = [PStr ''Visitors''] \<and> sink_calls w = [])"
  by code_simp

section \<open>Hierarchical crawler\<close>

text \<open>The projection loop of every stage:
  \<^verbatim>\<open>for field, response_field in schema.items(): doc[field] = item.get(response_field, None)\<close>.\<close>

definition project :: "schema \<Rightarrow> pydict \<Rightarrow> pydict \<Rightarrow> pydict" where
  "project schema_fields item doc =
     fold (\<lambda>(field, response_field) d. dict_set d field (dict_get item response_field))
       schema_fields doc"

text \<open>\<^verbatim>\<open>x += 'Z'\<close>: a string is extended, a list gets the element \<^verbatim>\<open>'Z'\<close>, anything else
  raises \<^verbatim>\<open>TypeError\<close>.\<close>

definition py_add_Z :: "pyval \<Rightarrow> py_error + pyval" where
  "py_add_Z v =
     (case v of
        PStr s \<Rightarrow> Inr (PStr (s @ ''Z''))
      | PList xs \<Rightarrow> Inr (PList (xs @ [PStr ''Z'']))
      | _ \<Rightarrow> Inl TypeError)"

text \<open>\<^verbatim>\<open>re.sub(pattern, '', title)\<close> raises \<^verbatim>\<open>TypeError\<close> unless the title is a string; the
  cleaned title only enters the document's url, which the environment builds.\<close>

definition py_str_of :: "pyval \<Rightarrow> py_error + string" where
  "py_str_of v = (case v of PStr s \<Rightarrow> Inr s | _ \<Rightarrow> Inl TypeError)"

subsection \<open>Sites\<close>

definition site_doc :: "env \<Rightarrow> schema \<Rightarrow> pydict
    \<Rightarrow> pydict list \<times> pydict list \<times> ids \<times> worker
    \<Rightarrow> py_error + pydict list \<times> pydict list \<times> ids \<times> worker" where
  "site_doc e schema_fields item st =
     (case st of (response_data, document, i, w) \<Rightarrow>
        and_then (dict_item item ''Created'') (\<lambda>created.
        and_then (py_add_Z created) (\<lambda>created_z.
          let item = dict_set item ''Created'' created_z;
              doc = project schema_fields item [(''type'', PStr SITE)]
          in
          and_then
            (if enable_permission e then
               and_then (dict_item item ''ServerRelativeUrl'') (\<lambda>site.
               and_then (index_permissions e SITES site PNone PNone PNone w) (\<lambda>gw.
                 Inr (dict_set doc ''_allow_permissions'' (PList (fst gw)), snd gw)))
             else Inr (doc, w)) (\<lambda>dw.
          and_then (dict_item (fst dw) ''id'') (\<lambda>doc_id.
          and_then (dict_item item ''ServerRelativeUrl'') (\<lambda>site.
          and_then (key_set (ids_sites i) doc_id site) (\<lambda>sites'.
            Inr (response_data @ [item], document @ [fst dw],
                 i\<lparr>ids_sites := sites'\<rparr>, snd dw))))))))"

definition index_sites :: "env \<Rightarrow> string \<Rightarrow> ids \<Rightarrow> bool \<Rightarrow> worker
    \<Rightarrow> py_error + pydict list \<times> ids \<times> worker" where
  "index_sites e collection i index w =
     (let response_data =
            check_response (sp_sites e collection (start_time w) (end_time w)) SITES
      in
      if results_of response_data = [] then Inr ([], i, w)
      else
        let schema_fields = get_schema_fields (objects e) (DEFAULT_SCHEMA e) SITES in
        if index then
          and_then (fold_err (site_doc e schema_fields) (results_of response_data) ([], [], i, w))
            (\<lambda>(response_data, document, i, w).
               Inr (response_data, i, index_document e document w))
        else Inr (results_of response_data, i, w))"

definition get_site_paths :: "env \<Rightarrow> string \<Rightarrow> ids \<Rightarrow> pydict list \<Rightarrow> worker
    \<Rightarrow> py_error + pyval list \<times> ids \<times> worker" where
  "get_site_paths e collection i response_data w =
     and_then
       (if response_data = [] then index_sites e collection i False w
        else Inr (response_data, i, w))
       (\<lambda>(response_data, i, w).
          Inr (map (\<lambda>result. dict_get result ''ServerRelativeUrl'') response_data, i, w))"

subsection \<open>Lists\<close>

text \<open>\<^verbatim>\<open>ids[level][parent].update({key: value})\<close> on a nested registry.\<close>

definition nested_set :: "(pyval \<times> (pyval \<times> 'v) list) list \<Rightarrow> pyval \<Rightarrow> pyval \<Rightarrow> 'v
    \<Rightarrow> py_error + (pyval \<times> (pyval \<times> 'v) list) list" where
  "nested_set d parent k v =
     and_then (dict_item d parent) (\<lambda>inner.
     and_then (key_set inner k v) (\<lambda>inner'.
       Inr (dict_set d parent inner')))"

definition list_doc :: "env \<Rightarrow> schema \<Rightarrow> pyval \<Rightarrow> pydict
    \<Rightarrow> pydict list \<times> ids \<times> worker
    \<Rightarrow> py_error + pydict list \<times> ids \<times> worker" where
  "list_doc e schema_list site item st =
     (case st of (document, i, w) \<Rightarrow>
        let doc = project schema_list item [(''type'', PStr LIST)] in
        and_then
          (if enable_permission e then
             and_then (dict_item item ''Title'') (\<lambda>list_name.
             and_then (dict_item item ''ParentWebUrl'') (\<lambda>parent_url.
             and_then (index_permissions e LISTS site list_name parent_url PNone w) (\<lambda>gw.
               Inr (dict_set doc ''_allow_permissions'' (PList (fst gw)), snd gw))))
           else Inr (doc, w)) (\<lambda>dw.
        and_then (dict_item item ''Title'') (\<lambda>title.
        and_then (py_str_of title) (\<lambda>title_str.
          let doc = dict_set (fst dw) ''url'' (PStr (list_url e site title_str)) in
          and_then (dict_item doc ''id'') (\<lambda>doc_id.
          and_then (nested_set (ids_lists i) site doc_id title) (\<lambda>lists'.
            Inr (document @ [doc], i\<lparr>ids_lists := lists'\<rparr>, snd dw)))))))"

definition lists_of_site :: "env \<Rightarrow> bool \<Rightarrow> pyval
    \<Rightarrow> pydict list list \<times> pydict list \<times> ids \<times> worker
    \<Rightarrow> py_error + pydict list list \<times> pydict list \<times> ids \<times> worker" where
  "lists_of_site e index site st =
     (case st of (responses, document, i, w) \<Rightarrow>
        let response_data =
              check_response (sp_lists e site (start_time w) (end_time w)) LISTS
        in
        if results_of response_data = [] then Inr (responses, document, i, w)
        else
          let schema_list = get_schema_fields (objects e) (DEFAULT_SCHEMA e) LISTS in
          if index then
            and_then (key_set (ids_lists i) site []) (\<lambda>lists'.
            and_then (fold_err (list_doc e schema_list site) (results_of response_data)
                        (document, i\<lparr>ids_lists := lists'\<rparr>, w))
              (\<lambda>(document, i, w).
                 Inr (responses @ [results_of response_data], document, i,
                      index_document e document w)))
          else Inr (responses @ [results_of response_data], document, i, w))"

definition index_lists :: "env \<Rightarrow> pyval list \<Rightarrow> ids \<Rightarrow> bool \<Rightarrow> worker
    \<Rightarrow> py_error + pydict list list \<times> ids \<times> worker" where
  "index_lists e site_paths i index w =
     (if site_paths = [] then Inr ([], i, w)
      else
        and_then (fold_err (lists_of_site e index) site_paths ([], [], i, w))
          (\<lambda>(responses, document, i, w). Inr (responses, i, w)))"

definition add_list_path :: "pydict \<Rightarrow> (pyval \<times> pyval \<times> pyval) list
    \<Rightarrow> py_error + (pyval \<times> pyval \<times> pyval) list" where
  "add_list_path result list_paths =
     key_set list_paths (dict_get result ''Id'')
       (dict_get result ''ParentWebUrl'', dict_get result ''Title'')"

definition get_lists_paths :: "env \<Rightarrow> string \<Rightarrow> ids \<Rightarrow> pyval list \<Rightarrow> pydict list list
    \<Rightarrow> worker \<Rightarrow> py_error + (pyval \<times> pyval \<times> pyval) list \<times> ids \<times> worker" where
  "get_lists_paths e collection i site_paths response_data w =
     and_then
       (if site_paths = [] then get_site_paths e collection i [] w
        else Inr (site_paths, i, w))
       (\<lambda>(site_paths, i, w).
     and_then
       (if response_data = [] then index_lists e site_paths i False w
        else Inr (response_data, i, w))
       (\<lambda>(response_data, i, w).
     and_then (fold_err add_list_path (concat response_data) [])
       (\<lambda>list_paths. Inr (list_paths, i, w))))"


subsection \<open>Items and their attachments\<close>

text \<open>\<^verbatim>\<open>file_response_data[num]['AttachmentFiles']['results'][0]['ServerRelativeUrl']\<close>\<close>

definition attachment_url :: "pydict list option \<Rightarrow> nat \<Rightarrow> py_error + pyval" where
  "attachment_url file_response_data num =
     (case file_response_data of
        None \<Rightarrow> Inl TypeError
      | Some file_rows \<Rightarrow>
          if num < length file_rows then
            and_then (dict_item (file_rows ! num) ''AttachmentFiles'') (\<lambda>files.
            and_then (py_getitem files ''results'') (\<lambda>results.
            and_then (py_first results) (\<lambda>first.
              py_getitem first ''ServerRelativeUrl'')))
          else Inl IndexError)"

definition item_body :: "env \<Rightarrow> pyval \<Rightarrow> pydict list option \<Rightarrow> nat \<Rightarrow> pydict \<Rightarrow> pydict
    \<Rightarrow> py_error + pydict" where
  "item_body e list_path file_response_data num item doc =
     (if truthy (dict_get item ''Attachments'') then
        and_then (attachment_url file_response_data num) (\<lambda>file_relative_url.
          case sp_file e list_path file_relative_url of
            (status_ok, content) \<Rightarrow>
              if status_ok then
                (case extract_text e content of
                   Some text \<Rightarrow> Inr (dict_set doc ''body'' (PStr text))
                 | None \<Rightarrow> Inr (dict_set doc ''body'' (PDict [])))
              else Inr doc)
      else Inr doc)"

text \<open>\<^verbatim>\<open>ids["list_items"][value[0]][value[1]].append(guid)\<close>\<close>

definition append_guid :: "(pyval \<times> (pyval \<times> pyval list) list) list \<Rightarrow> pyval \<Rightarrow> pyval \<Rightarrow> pyval
    \<Rightarrow> py_error + (pyval \<times> (pyval \<times> pyval list) list) list" where
  "append_guid d list_path title guid =
     and_then (dict_item d list_path) (\<lambda>inner.
     and_then (dict_item inner title) (\<lambda>guids.
       Inr (dict_set d list_path (dict_set inner title (guids @ [guid])))))"

definition item_doc :: "env \<Rightarrow> schema \<Rightarrow> pyval \<times> pyval \<Rightarrow> string \<Rightarrow> pydict list option
    \<Rightarrow> nat \<times> pydict \<Rightarrow> pydict list \<times> ids \<times> worker
    \<Rightarrow> py_error + pydict list \<times> ids \<times> worker" where
  "item_doc e schema_item val list_title file_response_data numbered st =
     (case st of (document, i, w) \<Rightarrow>
      case numbered of (num, item) \<Rightarrow>
        and_then (item_body e (fst val) file_response_data num item [(''type'', PStr ITEM)])
          (\<lambda>doc.
        let doc = project schema_item item doc in
        and_then
          (if enable_permission e then
             and_then (dict_item item ''Id'') (\<lambda>item_id.
             and_then (index_permissions e ITEMS PNone (snd val) (fst val) item_id w) (\<lambda>gw.
               Inr (dict_set doc ''_allow_permissions'' (PList (fst gw)), snd gw)))
           else Inr (doc, w)) (\<lambda>dw.
        and_then (dict_item item ''Id'') (\<lambda>item_id.
          let doc = dict_set (fst dw) ''url'' (PStr (item_url e (fst val) list_title item_id)) in
          and_then (append_guid (ids_list_items i) (fst val) (snd val) (dict_get item ''GUID''))
            (\<lambda>items'.
              Inr (document @ [doc], i\<lparr>ids_list_items := items'\<rparr>, snd dw))))))"

definition items_of_list :: "env \<Rightarrow> bool \<Rightarrow> pyval \<times> pyval \<times> pyval
    \<Rightarrow> pydict list list \<times> ids \<times> worker
    \<Rightarrow> py_error + pydict list list \<times> ids \<times> worker" where
  "items_of_list e index entry st =
     (case st of (responses, i, w) \<Rightarrow>
        let val = snd entry;
            response_data =
              check_response (sp_items e (fst val) (snd val) (start_time w) (end_time w)) ITEMS
        in
        if results_of response_data = [] then Inr (responses, i, w)
        else
          and_then (py_str_of (snd val)) (\<lambda>list_title.
            let schema_item = get_schema_fields (objects e) (DEFAULT_SCHEMA e) ITEMS in
            if index then
              and_then (nested_set (ids_list_items i) (fst val) (snd val) []) (\<lambda>items'.
                let file_response_data =
                      check_response (sp_attachments e (fst val) (snd val)) ''attachment''
                in
                and_then
                  (fold_err (item_doc e schema_item val list_title file_response_data)
                     (enumerate 0 (results_of response_data))
                     ([], i\<lparr>ids_list_items := items'\<rparr>, w))
                  (\<lambda>(document, i, w).
                     Inr (responses @ [document], i, index_document e document w)))
            else Inr (responses @ [[]], i, w)))"

definition index_items :: "env \<Rightarrow> (pyval \<times> pyval \<times> pyval) list \<Rightarrow> ids \<Rightarrow> bool \<Rightarrow> worker
    \<Rightarrow> py_error + pydict list list \<times> ids \<times> worker" where
  "index_items e list_paths i index w =
     (if list_paths = [] then Inr ([], i, w)
      else
        and_then
          (fold_err (\<lambda>entry items. key_set items (fst (snd entry)) []) list_paths
             (ids_list_items i))
          (\<lambda>items'.
             fold_err (items_of_list e index) list_paths ([], i\<lparr>ids_list_items := items'\<rparr>, w)))"

subsection \<open>One partition unit\<close>

text \<open>
  The loop of \<^verbatim>\<open>FetchIndex.indexing\<close> over the configured object types, one iteration
  per key. \<open>items_branch\<close> is the second \<^verbatim>\<open>if/elif\<close> of the body, \<open>indexing_key\<close> the
  whole body; a \<^verbatim>\<open>continue\<close> ends the iteration.
\<close>

definition items_branch :: "env \<Rightarrow> string \<Rightarrow> string
    \<Rightarrow> pyval list \<times> (pyval \<times> pyval \<times> pyval) list \<times> ids \<times> worker
    \<Rightarrow> py_error + pyval list \<times> (pyval \<times> pyval \<times> pyval) list \<times> ids \<times> worker" where
  "items_branch e collection key st =
     (case st of (site_paths, list_paths, i, w) \<Rightarrow>
        if key = ITEMS \<and> \<not> is_error w then
          and_then
            (if list_paths = [] then get_lists_paths e collection i site_paths [] w
             else Inr (list_paths, i, w))
            (\<lambda>(list_paths, i, w).
          and_then (index_items e list_paths i True w)
            (\<lambda>(responses, i, w). Inr (site_paths, list_paths, i, w)))
        else if is_error w then Inr (site_paths, list_paths, i, w\<lparr>is_error := False\<rparr>)
        else Inr (site_paths, list_paths, i, w))"

definition indexing_key :: "env \<Rightarrow> string \<Rightarrow> string
    \<Rightarrow> pyval list \<times> (pyval \<times> pyval \<times> pyval) list \<times> ids \<times> worker
    \<Rightarrow> py_error + pyval list \<times> (pyval \<times> pyval \<times> pyval) list \<times> ids \<times> worker" where
  "indexing_key e collection key st =
     (case st of (site_paths, list_paths, i, w) \<Rightarrow>
        and_then
          (if key = SITES then
             and_then (index_sites e collection i True w) (\<lambda>(response, i, w).
               get_site_paths e collection i response w)
           else Inr (site_paths, i, w))
          (\<lambda>(site_paths, i, w).
             if key = LISTS \<and> \<not> is_error w then
               and_then
                 (if site_paths = [] then get_site_paths e collection i [] w
                  else Inr (site_paths, i, w))
                 (\<lambda>(site_paths, i, w).
               and_then (index_lists e site_paths i True w) (\<lambda>(responses, i, w).
               and_then (get_lists_paths e collection i site_paths responses w)
                 (\<lambda>(list_paths, i, w).
                    items_branch e collection key (site_paths, list_paths, i, w))))
             else if is_error w then
               Inr (site_paths, list_paths, i, w\<lparr>is_error := False\<rparr>)
             else items_branch e collection key (site_paths, list_paths, i, w)))"

text \<open>
  After the loop, \<^verbatim>\<open>indexing\<close> works on two objects that all the processes of a
  collection share through a Manager: the list \<^verbatim>\<open>is_error_shared\<close> and the dictionary
  \<^verbatim>\<open>storage\<close>. Every access is one call on a proxy, and other processes run between
  two calls: \<^verbatim>\<open>is_error_shared.append(self.is_error)\<close> is one call;
  \<^verbatim>\<open>prev_ids = storage[obj]\<close> is one call, which hands the process a copy of the level;
  \<^verbatim>\<open>prev_ids.update(ids[obj])\<close> changes that copy inside the process;
  \<^verbatim>\<open>storage[obj] = prev_ids\<close> is one call, which writes the copy back. No lock is taken.
\<close>

datatype level = Sites | Lists | ListItems

datatype shared_op = AppendError | GetLevel level | SetLevel level

record shared =
  storage :: ids
  is_error_shared :: "bool list"

text \<open>What a process holds when its loop has ended: its registry, its worker and the
  local variable \<^verbatim>\<open>prev_ids\<close>, kept per level.\<close>

record unit_state =
  unit_ids :: ids
  unit_worker :: worker
  prev_ids :: ids

type_synonym process = "unit_state \<times> shared_op list"

text \<open>\<^verbatim>\<open>ids.get(obj)\<close> as a condition.\<close>

fun has_level :: "ids \<Rightarrow> level \<Rightarrow> bool" where
  "has_level i Sites = (ids_sites i \<noteq> [])"
| "has_level i Lists = (ids_lists i \<noteq> [])"
| "has_level i ListItems = (ids_list_items i \<noteq> [])"

text \<open>\<^verbatim>\<open>for obj in ['sites', 'lists', 'list_items']: if ids.get(obj): ...\<close>: the calls on
  the shared dictionary that the process still has to make.\<close>

definition merge_ops :: "ids \<Rightarrow> shared_op list" where
  "merge_ops i =
     concat (map (\<lambda>obj. if has_level i obj then [GetLevel obj, SetLevel obj] else [])
               [Sites, Lists, ListItems])"

text \<open>
  \<^verbatim>\<open>FetchIndex.indexing\<close>, up to its first call on a shared object: the loop over the
  configured object types, and then the calls that are left to make. An exception out of
  the loop ends the process before any of them.
\<close>

definition indexing :: "env \<Rightarrow> string \<Rightarrow> ids \<Rightarrow> worker \<Rightarrow> py_error + process" where
  "indexing e collection i w =
     and_then (fold_err (indexing_key e collection) (map fst (objects e)) ([], [], i, w))
       (\<lambda>(site_paths, list_paths, i, w).
          Inr (\<lparr>unit_ids = i, unit_worker = w, prev_ids = empty_ids\<rparr>,
               AppendError # merge_ops i))"

text \<open>One call on a shared object, made by the process in state \<open>u\<close>. The local update
  of the copy is done with the write.\<close>

fun exec_op :: "shared_op \<Rightarrow> unit_state \<Rightarrow> shared \<Rightarrow> unit_state \<times> shared" where
  "exec_op AppendError u sh =
     (u, sh\<lparr>is_error_shared := is_error_shared sh @ [is_error (unit_worker u)]\<rparr>)"
| "exec_op (GetLevel Sites) u sh =
     (u\<lparr>prev_ids := (prev_ids u)\<lparr>ids_sites := ids_sites (storage sh)\<rparr>\<rparr>, sh)"
| "exec_op (GetLevel Lists) u sh =
     (u\<lparr>prev_ids := (prev_ids u)\<lparr>ids_lists := ids_lists (storage sh)\<rparr>\<rparr>, sh)"
| "exec_op (GetLevel ListItems) u sh =
     (u\<lparr>prev_ids := (prev_ids u)\<lparr>ids_list_items := ids_list_items (storage sh)\<rparr>\<rparr>, sh)"
| "exec_op (SetLevel Sites) u sh =
     (u, sh\<lparr>storage := (storage sh)
        \<lparr>ids_sites := dict_update (ids_sites (prev_ids u)) (ids_sites (unit_ids u))\<rparr>\<rparr>)"
| "exec_op (SetLevel Lists) u sh =
     (u, sh\<lparr>storage := (storage sh)
        \<lparr>ids_lists := dict_update (ids_lists (prev_ids u)) (ids_lists (unit_ids u))\<rparr>\<rparr>)"
| "exec_op (SetLevel ListItems) u sh =
     (u, sh\<lparr>storage := (storage sh)
        \<lparr>ids_list_items :=
           dict_update (ids_list_items (prev_ids u)) (ids_list_items (unit_ids u))\<rparr>\<rparr>)"

text \<open>
  The processes of a collection run together. A schedule is the order in which they get
  to make their calls: \<open>step k\<close> lets process \<open>k\<close> make its next call, and does nothing
  when it has none left. \<^verbatim>\<open>job.join()\<close> on every job waits until each process has made
  all its calls; \<open>join\<close> lets them make the calls that the schedule left open, process by
  process.
\<close>

definition step :: "nat \<Rightarrow> process list \<times> shared \<Rightarrow> process list \<times> shared" where
  "step k st =
     (case st of (procs, sh) \<Rightarrow>
        if k < length procs then
          (case procs ! k of
             (u, []) \<Rightarrow> (procs, sh)
           | (u, op # ops) \<Rightarrow>
               (case exec_op op u sh of (u', sh') \<Rightarrow> (procs[k := (u', ops)], sh')))
        else (procs, sh))"

definition join :: "process list \<times> shared \<Rightarrow> process list \<times> shared" where
  "join st =
     fold step
       (concat (map (\<lambda>k. replicate (length (snd (fst st ! k))) k) [0..<length (fst st)]))
       st"

definition run_units :: "nat list \<Rightarrow> process list \<Rightarrow> shared \<Rightarrow> process list \<times> shared" where
  "run_units schedule procs sh = join (fold step schedule (procs, sh))"


section \<open>Merging the registries of the units\<close>













definition site_a :: pydict where
  "site_a = [(''Id'', PStr ''s1''), (''Created'', PStr ''2021-09-29T08:13:00''),
             (''ServerRelativeUrl'', PStr ''/sites/c/a''), (''Title'', PStr ''A'')]"

definition site_b :: pydict where
  "site_b = [(''Id'', PStr ''s2''), (''Created'', PStr ''2021-09-30T10:00:00''),
             (''ServerRelativeUrl'', PStr ''/sites/c/b''), (''Title'', PStr ''B'')]"

definition list_a1 :: pydict where
  "list_a1 = [(''Id'', PStr ''l1''), (''ParentWebUrl'', PStr ''/sites/c/a''),
              (''Title'', PStr ''Docs'')]"

definition list_b1 :: pydict where
  "list_b1 = [(''Id'', PStr ''l2''), (''ParentWebUrl'', PStr ''/sites/c/b''),
              (''Title'', PStr ''Tasks'')]"

definition item_1 :: pydict where
  "item_1 = [(''Id'', PInt 1), (''GUID'', PStr ''g1''), (''Title'', PStr ''hello'')]"

text \<open>A collection with the site \<open>a\<close>, changed in the first half of the hour, and the
  site \<open>b\<close>, changed in the second half; each has one list, and nothing has items.\<close>

definition two_halves :: env where
  "two_halves = quiet_env
     \<lparr>sp_sites := (\<lambda>collection s t. if t \<le> 1800 then Json (Some [site_a])
                                     else Json (Some [site_b])),
      sp_lists := (\<lambda>site s t. if site = PStr ''/sites/c/a'' then Json (Some [list_a1])
                               else Json (Some [list_b1]))\<rparr>"



section \<open>The failure flag of a unit\<close>




text \<open>One site with one list with one item, and a sink that refuses every batch.\<close>

definition one_of_each :: env where
  "one_of_each = quiet_env
     \<lparr>sp_sites := (\<lambda>collection s t. Json (Some [site_a])),
      sp_lists := (\<lambda>site s t. Json (Some [list_a1])),
      sp_items := (\<lambda>list_path title s t. Json (Some [item_1])),
      ws_index_documents := (\<lambda>calls chunk. SinkRaises)\<rparr>"




section \<open>The coordinator\<close>

text \<open>
  \<^verbatim>\<open>start\<close> reads the configuration, the clock, the checkpoint of a collection and the
  file of the identity registry, and it calls the sink to purge the permissions. The
  checkpoint module is outside the repository: \<^verbatim>\<open>get_checkpoint\<close> is a parameter and
  \<^verbatim>\<open>set_checkpoint\<close> is recorded as an event with its arguments. The file of the registry
  is absent or empty (\<open>NoFile\<close>), or \<^verbatim>\<open>json.load\<close> raises \<^verbatim>\<open>ValueError\<close> on it, or it
  holds the registries of the collections under \<^verbatim>\<open>global_keys\<close>. The order in which the
  processes of a collection make their calls on the shared objects is a parameter too.
\<close>

datatype ids_file = NoFile | Unparsable | Parsed "(string \<times> ids) list"

datatype purge_call = ListPermissions | RemoveUserPermissions pyval pyval

record coordinator =
  site_collections :: "string list"
  worker_process :: "int option"
  cpu_count :: "int option"
  config_start_time :: int
  current_time :: int
  get_checkpoint :: "string \<Rightarrow> int \<Rightarrow> int \<times> int"
  ids_file :: ids_file
  ws_list_permissions :: "pyval option"
  ws_remove_user_permissions :: "purge_call list \<Rightarrow> pyval \<Rightarrow> pyval \<Rightarrow> bool"
  schedule :: "string \<Rightarrow> nat list"

datatype event =
    RemoveAllPermissions "purge_call list"
  | Started string int int
  | Joined string "py_error + sink_call list"
  | SetCheckpoint string int string
  | DumpIds "(string \<times> ids) list" "(string \<times> ids) list"

subsection \<open>Purging the permissions\<close>

text \<open>
  \<^verbatim>\<open>Permissions.remove_all_permissions\<close>: the whole body is inside one \<^verbatim>\<open>try\<close> whose
  handler logs the exception. \<open>ws_list_permissions\<close> is the answer of the sink, \<open>None\<close>
  when the call raises; \<open>ws_remove_user_permissions\<close> tells whether the removal raises.
  The value is the list of the calls made on the sink.
\<close>

fun remove_each :: "coordinator \<Rightarrow> pyval list \<Rightarrow> purge_call list \<Rightarrow> purge_call list" where
  "remove_each co [] calls = calls"
| "remove_each co (permission # rest) calls =
     (case and_then (py_getitem permission ''user'') (\<lambda>user.
           and_then (py_getitem permission ''permissions'') (\<lambda>permissions.
             Inr (user, permissions))) of
        Inl err \<Rightarrow> calls
      | Inr (user, permissions) \<Rightarrow>
          if ws_remove_user_permissions co calls user permissions
          then calls @ [RemoveUserPermissions user permissions]
          else remove_each co rest (calls @ [RemoveUserPermissions user permissions]))"

definition remove_all_permissions :: "coordinator \<Rightarrow> purge_call list" where
  "remove_all_permissions co =
     (case ws_list_permissions co of
        None \<Rightarrow> [ListPermissions]
      | Some user_permission \<Rightarrow>
          if truthy user_permission then
            (case and_then (py_getitem user_permission ''results'') py_iter of
               Inl err \<Rightarrow> [ListPermissions]
             | Inr permission_list \<Rightarrow> remove_each co permission_list [ListPermissions])
          else [ListPermissions])"

subsection \<open>One cycle\<close>

text \<open>\<^verbatim>\<open>worker_process\<close> from the configuration, or \<^verbatim>\<open>os.cpu_count()\<close> when it is
  missing or not positive.\<close>

definition workers :: "coordinator \<Rightarrow> int option" where
  "workers co =
     (case worker_process co of
        None \<Rightarrow> cpu_count co
      | Some n \<Rightarrow> if n \<le> 0 then cpu_count co else Some n)"

text \<open>\<^verbatim>\<open>for num in range(0, worker_process)\<close>: the window of unit \<open>num\<close> is
  \<^verbatim>\<open>datelist[num]\<close>, \<^verbatim>\<open>datelist[num + 1]\<close>.\<close>

definition unit_windows :: "int list \<Rightarrow> int \<Rightarrow> (int \<times> int) list" where
  "unit_windows datelist processes =
     map (\<lambda>num. (datelist ! num, datelist ! (num + 1))) [0..<nat processes]"

text \<open>The body of \<^verbatim>\<open>for collection in data.get("sharepoint.site_collections")\<close>. The state
  is the trace of events, \<^verbatim>\<open>ids_collection["global_keys"]\<close>,
  \<^verbatim>\<open>storage_with_collection["global_keys"]\<close> and \<^verbatim>\<open>is_error_shared\<close>, which is created
  once, before the first cycle. A process whose loop raises ends without a call on the
  shared objects.\<close>

definition collection_cycle :: "env \<Rightarrow> coordinator \<Rightarrow> string \<Rightarrow> string
    \<Rightarrow> event list \<times> (string \<times> ids) list \<times> (string \<times> ids) list \<times> bool list
    \<Rightarrow> py_error + event list \<times> (string \<times> ids) list \<times> (string \<times> ids) list \<times> bool list" where
  "collection_cycle e co indexing_type collection st =
     (case st of (trace, global_keys, stored, flags) \<Rightarrow>
        case workers co of
          None \<Rightarrow> Inl TypeError
        | Some processes \<Rightarrow>
            let window = (if indexing_type = ''incremental''
                          then get_checkpoint co collection (current_time co)
                          else (config_start_time co, current_time co))
            in
            and_then (datetime_partitioning (fst window) (snd window) processes)
              (\<lambda>partitions.
                 let datelist = map strftime partitions;
                     global_keys =
                       (case map_of global_keys collection of
                          None \<Rightarrow> dict_set global_keys collection empty_ids
                        | Some i \<Rightarrow> global_keys);
                     jobs = map (\<lambda>window. indexing e collection
                                     (case map_of global_keys collection of
                                        None \<Rightarrow> empty_ids | Some i \<Rightarrow> i)
                                     (fresh_worker (fst window) (snd window)))
                              (unit_windows datelist processes);
                     done = run_units (schedule co collection)
                              (concat (map (\<lambda>job. case job of Inl err \<Rightarrow> [] | Inr p \<Rightarrow> [p]) jobs))
                              \<lparr>storage = empty_ids, is_error_shared = flags\<rparr>
                 in
                 Inr (trace
                      @ map (\<lambda>window. Started collection (fst window) (snd window))
                          (unit_windows datelist processes)
                      @ map (\<lambda>job. Joined collection
                               (case job of
                                  Inl err \<Rightarrow> Inl err
                                | Inr p \<Rightarrow> Inr (sink_calls (unit_worker (fst p))))) jobs
                      @ [if py_in (PStr ''True'') (map PBool (is_error_shared (snd done)))
                         then SetCheckpoint collection (fst window) indexing_type
                         else SetCheckpoint collection (snd window) indexing_type],
                      global_keys,
                      dict_set stored collection (storage (snd done)),
                      is_error_shared (snd done))))"

text \<open>The body of \<^verbatim>\<open>while True\<close> up to the sleep. The purge is inside the test on the
  file of the registry.\<close>

definition cycle :: "env \<Rightarrow> coordinator \<Rightarrow> string \<Rightarrow> bool list
    \<Rightarrow> py_error + event list \<times> bool list" where
  "cycle e co indexing_type flags =
     (let ids_collection = (case ids_file co of Parsed global_keys \<Rightarrow> global_keys | _ \<Rightarrow> []);
          trace = (if ids_file co \<noteq> NoFile \<and> indexing_type = ''full_sync''
                   then [RemoveAllPermissions (remove_all_permissions co)] else [])
      in
      and_then (fold_err (collection_cycle e co indexing_type) (site_collections co)
                  (trace, ids_collection, [], flags))
        (\<lambda>(trace, global_keys, stored, flags).
           Inr (trace @ [DumpIds stored ids_collection], flags)))"

fun is_purge :: "event \<Rightarrow> bool" where
  "is_purge (RemoveAllPermissions calls) = True"
| "is_purge ev = False"

subsection \<open>Properties of the cycle\<close>

lemma py_in_True_flags: "py_in (PStr ''True'') (map PBool flags) = False"
  by (induction flags) (simp_all add: py_in_def)

lemma partitioning_total:
  "W \<noteq> 0 \<Longrightarrow> \<exists>partitions. datetime_partitioning s t W = Inr partitions"
  by (simp add: datetime_partitioning_def Let_def)

lemma collection_cycle_events:
  assumes "workers co = Some W" and "0 < W"
  shows "\<exists>ev g' s' f'.
           collection_cycle e co indexing_type collection (trace, g, s, f)
             = Inr (trace @ ev, g', s', f')
           \<and> (\<forall>x \<in> set ev. \<not> is_purge x)"
proof -
  let ?window = "if indexing_type = ''incremental''
                 then get_checkpoint co collection (current_time co)
                 else (config_start_time co, current_time co)"
  from assms(2) obtain partitions where
    p: "datetime_partitioning (fst ?window) (snd ?window) W = Inr partitions"
    using partitioning_total [of W "fst ?window" "snd ?window"] by auto
  show ?thesis
    unfolding collection_cycle_def
    using assms(1) p by (auto simp: Let_def simp del: append_assoc)
qed


lemma collections_events:
  assumes "workers co = Some W" and "0 < W"
  shows "\<exists>ev g' s' f'.
           fold_err (collection_cycle e co indexing_type) collections (trace, g, s, f)
             = Inr (trace @ ev, g', s', f')
           \<and> (\<forall>x \<in> set ev. \<not> is_purge x)"
proof (induction collections arbitrary: trace g s f)
  case Nil
  show ?case by simp
next
  case (Cons c collections)
  from collection_cycle_events [OF assms, of e indexing_type c trace g s f]
  obtain ev1 g1 s1 f1 where
    one: "collection_cycle e co indexing_type c (trace, g, s, f) = Inr (trace @ ev1, g1, s1, f1)"
    and n1: "\<forall>x \<in> set ev1. \<not> is_purge x"
    by blast
  from Cons.IH [of "trace @ ev1" g1 s1 f1] obtain ev2 g2 s2 f2 where
    rest: "fold_err (collection_cycle e co indexing_type) collections (trace @ ev1, g1, s1, f1)
             = Inr ((trace @ ev1) @ ev2, g2, s2, f2)"
    and n2: "\<forall>x \<in> set ev2. \<not> is_purge x"
    by blast
  have "fold_err (collection_cycle e co indexing_type) (c # collections) (trace, g, s, f)
          = Inr (trace @ (ev1 @ ev2), g2, s2, f2)"
    using one rest by simp
  moreover have "\<forall>x \<in> set (ev1 @ ev2). \<not> is_purge x" using n1 n2 by auto
  ultimately show ?case by blast
qed

lemma remove_each_ok:
  assumes "\<forall>calls p. p \<in> set perms \<longrightarrow> \<not> ws_remove_user_permissions co calls (fst p) (snd p)"
  shows "remove_each co
           (map (\<lambda>p. PDict [(''user'', fst p), (''permissions'', snd p)]) perms) calls
         = calls @ map (\<lambda>p. RemoveUserPermissions (fst p) (snd p)) perms"
  using assms
proof (induction perms arbitrary: calls)
  case Nil
  show ?case by simp
next
  case (Cons a perms)
  have quiet: "\<not> ws_remove_user_permissions co calls (fst a) (snd a)"
    using Cons.prems by (metis list.set_intros(1))
  have rest: "\<forall>calls p. p \<in> set perms \<longrightarrow>
                 \<not> ws_remove_user_permissions co calls (fst p) (snd p)"
    using Cons.prems by (metis list.set_intros(2))
  from Cons.IH [OF rest, of "calls @ [RemoveUserPermissions (fst a) (snd a)]"] quiet
  show ?case by (cases a) (simp add: dict_item_def)
qed

lemma quiet_key:
  assumes "results_of (check_response (sp_sites e collection (start_time w) (end_time w)) SITES)
             = []"
    and "\<not> is_error w"
  shows "indexing_key e collection key ([], [], i, w) = Inr ([], [], i, w)"
  using assms
  by (simp add: indexing_key_def items_branch_def index_sites_def get_site_paths_def
        index_lists_def get_lists_paths_def index_items_def Let_def)

lemma quiet_loop:
  assumes "results_of (check_response (sp_sites e collection (start_time w) (end_time w)) SITES)
             = []"
    and "\<not> is_error w"
  shows "fold_err (indexing_key e collection) keys ([], [], i, w) = Inr ([], [], i, w)"
  by (induction keys) (simp_all add: quiet_key [OF assms])

lemma quiet_unit:
  assumes "results_of (check_response (sp_sites e collection (start_time w) (end_time w)) SITES)
             = []"
    and "\<not> is_error w"
  shows "indexing e collection i w
           = Inr (\<lparr>unit_ids = i, unit_worker = w, prev_ids = empty_ids\<rparr>,
                  AppendError # merge_ops i)"
  by (simp add: indexing_def quiet_loop [OF assms])

lemma map_upt_const: "(\<And>k. k < n \<Longrightarrow> f k = c) \<Longrightarrow> map f [0..<n] = replicate n c"
  by (induction n) (auto simp: replicate_append_same)

lemma strftime_strptime: "strftime (strptime t) = t"
  by (simp add: strftime_def strptime_def)

lemma unit_windows_const:
  "unit_windows (replicate (Suc (nat W)) c) W = replicate (nat W) (c, c)"
  unfolding unit_windows_def by (rule map_upt_const) (simp del: replicate.simps)

fun is_started :: "event \<Rightarrow> bool" where
  "is_started (Started collection s t) = True"
| "is_started ev = False"

fun is_checkpoint :: "event \<Rightarrow> bool" where
  "is_checkpoint (SetCheckpoint collection t indexing_type) = True"
| "is_checkpoint ev = False"

text \<open>Two collections, two workers, an hour since the last checkpoint; the registry
  of the last cycle is on file, and the sink holds one grant.\<close>

definition office :: coordinator where
  "office =
     \<lparr>site_collections = [''c'', ''d''],
      worker_process = Some 2,
      cpu_count = Some 8,
      config_start_time = 0,
      current_time = 3600,
      get_checkpoint = (\<lambda>collection now. (0, now)),
      ids_file = Parsed [(''c'', empty_ids)],
      ws_list_permissions =
        Some (PDict [(''results'',
          PList [PDict [(''user'', PStr ''alice''),
                        (''permissions'', PList [PStr ''Team Members''])]])]),
      ws_remove_user_permissions = (\<lambda>calls user permissions. False),
      schedule = (\<lambda>collection. [])\<rparr>"

text \<open>
  Claim C2. Let the worker count be positive. Then the cycle returns, and its trace holds
  exactly one purge when it runs in \<open>full_sync\<close> mode and the file of the registry is
  present and not empty, and no purge otherwise. A purge is the first event of the trace:
  it has returned before any process is started, whatever the number of processes and of
  collections. The purge asks the sink for the grants and removes them one by one; when
  the sink raises on the first call, it makes no other call and returns.
\<close>

theorem purge_once:
  assumes "workers co = Some W" and "0 < W"
  shows "\<exists>trace flags'.
           cycle e co indexing_type flags = Inr (trace, flags')
           \<and> filter is_purge trace
               = (if indexing_type = ''full_sync'' \<and> ids_file co \<noteq> NoFile
                  then [RemoveAllPermissions (remove_all_permissions co)] else [])
           \<and> (\<forall>n < length trace. is_purge (trace ! n) \<longrightarrow> n = 0)
           \<and> (ws_list_permissions co = None \<longrightarrow> remove_all_permissions co = [ListPermissions])
           \<and> (\<forall>perms.
                 ws_list_permissions co
                   = Some (PDict [(''results'',
                        PList (map (\<lambda>p. PDict [(''user'', fst p), (''permissions'', snd p)])
                                 perms))])
                 \<and> (\<forall>calls p. p \<in> set perms \<longrightarrow>
                        \<not> ws_remove_user_permissions co calls (fst p) (snd p))
                 \<longrightarrow> remove_all_permissions co
                       = ListPermissions # map (\<lambda>p. RemoveUserPermissions (fst p) (snd p)) perms)"
proof -
  let ?ids = "case ids_file co of Parsed global_keys \<Rightarrow> global_keys | _ \<Rightarrow> []"
  let ?purge = "if ids_file co \<noteq> NoFile \<and> indexing_type = ''full_sync''
                then [RemoveAllPermissions (remove_all_permissions co)] else []"
  from collections_events [OF assms, of e indexing_type "site_collections co" ?purge ?ids "[]" flags]
  obtain ev g' s' f' where
    run: "fold_err (collection_cycle e co indexing_type) (site_collections co)
            (?purge, ?ids, [], flags) = Inr (?purge @ ev, g', s', f')"
    and none: "\<forall>x \<in> set ev. \<not> is_purge x"
    by blast
  let ?trace = "?purge @ ev @ [DumpIds s' ?ids]"
  have c: "cycle e co indexing_type flags = Inr (?trace, f')"
    using run by (simp add: cycle_def Let_def)
  have nf: "filter is_purge ev = []" using none by (simp add: filter_empty_conv)
  have f: "filter is_purge ?trace
             = (if indexing_type = ''full_sync'' \<and> ids_file co \<noteq> NoFile
                then [RemoveAllPermissions (remove_all_permissions co)] else [])"
    using nf by simp
  have first: "\<forall>n < length ?trace. is_purge (?trace ! n) \<longrightarrow> n = 0"
  proof (intro allI impI)
    fix n
    assume n: "n < length ?trace" and p: "is_purge (?trace ! n)"
    show "n = 0"
    proof (rule ccontr)
      assume "n \<noteq> 0"
      then have "length ?purge \<le> n" by simp
      then have "?trace ! n = (ev @ [DumpIds s' ?ids]) ! (n - length ?purge)"
        by (simp add: nth_append)
      moreover have "n - length ?purge < length (ev @ [DumpIds s' ?ids])"
        using n \<open>length ?purge \<le> n\<close> by simp
      ultimately have "?trace ! n \<in> set (ev @ [DumpIds s' ?ids])"
        by (metis nth_mem)
      with none p show False by auto
    qed
  qed
  have raise: "ws_list_permissions co = None \<longrightarrow> remove_all_permissions co = [ListPermissions]"
    by (simp add: remove_all_permissions_def)
  have ok: "\<forall>perms.
                 ws_list_permissions co
                   = Some (PDict [(''results'',
                        PList (map (\<lambda>p. PDict [(''user'', fst p), (''permissions'', snd p)])
                                 perms))])
                 \<and> (\<forall>calls p. p \<in> set perms \<longrightarrow>
                        \<not> ws_remove_user_permissions co calls (fst p) (snd p))
                 \<longrightarrow> remove_all_permissions co
                       = ListPermissions # map (\<lambda>p. RemoveUserPermissions (fst p) (snd p)) perms"
  proof (intro allI impI)
    fix perms
    assume h: "ws_list_permissions co
                   = Some (PDict [(''results'',
                        PList (map (\<lambda>p. PDict [(''user'', fst p), (''permissions'', snd p)])
                                 perms))])
                 \<and> (\<forall>calls p. p \<in> set perms \<longrightarrow>
                        \<not> ws_remove_user_permissions co calls (fst p) (snd p))"
    then have l: "ws_list_permissions co
                   = Some (PDict [(''results'',
                        PList (map (\<lambda>p. PDict [(''user'', fst p), (''permissions'', snd p)])
                                 perms))])"
      and r: "\<forall>calls p. p \<in> set perms \<longrightarrow>
                        \<not> ws_remove_user_permissions co calls (fst p) (snd p)"
      by simp_all
    show "remove_all_permissions co
            = ListPermissions # map (\<lambda>p. RemoveUserPermissions (fst p) (snd p)) perms"
      using remove_each_ok [OF r, of "[ListPermissions]"]
      by (simp add: remove_all_permissions_def l dict_item_def)
  qed
  show ?thesis
  proof (intro exI conjI)
    show "cycle e co indexing_type flags = Inr (?trace, f')" by (rule c)
    show "filter is_purge ?trace
             = (if indexing_type = ''full_sync'' \<and> ids_file co \<noteq> NoFile
                then [RemoveAllPermissions (remove_all_permissions co)] else [])"
      by (rule f)
    show "\<forall>n < length ?trace. is_purge (?trace ! n) \<longrightarrow> n = 0" by (rule first)
    show "ws_list_permissions co = None \<longrightarrow> remove_all_permissions co = [ListPermissions]"
      by (rule raise)
    show "\<forall>perms.
                 ws_list_permissions co
                   = Some (PDict [(''results'',
                        PList (map (\<lambda>p. PDict [(''user'', fst p), (''permissions'', snd p)])
                                 perms))])
                 \<and> (\<forall>calls p. p \<in> set perms \<longrightarrow>
                        \<not> ws_remove_user_permissions co calls (fst p) (snd p))
                 \<longrightarrow> remove_all_permissions co
                       = ListPermissions # map (\<lambda>p. RemoveUserPermissions (fst p) (snd p)) perms"
      by (rule ok)
  qed
qed


theorem purge_once_witness:
  "workers office = Some 2 \<and> (0 :: int) < 2 \<and> ids_file office \<noteq> NoFile
   \<and> (case cycle two_halves office ''full_sync'' [] of
         Inl err \<Rightarrow> False
       | Inr (trace, flags) \<Rightarrow>
           filter is_purge trace
             = [RemoveAllPermissions
                  [ListPermissions,
                   RemoveUserPermissions (PStr ''alice'') (PList [PStr ''Team Members''])]]
           \<and> is_purge (trace ! 0) \<and> length (filter is_started trace) = 4)"
proof -
  have w: "workers office = Some 2" by (simp add: workers_def office_def)
  have present: "ids_file office \<noteq> NoFile" by (simp add: office_def)
  have calls: "remove_all_permissions office
                 = [ListPermissions,
                    RemoveUserPermissions (PStr ''alice'') (PList [PStr ''Team Members''])]"
    by code_simp
  have started: "case cycle two_halves office ''full_sync'' [] of
                   Inl err \<Rightarrow> False
                 | Inr (trace, flags) \<Rightarrow> length (filter is_started trace) = 4"
    by code_simp
  from purge_once [OF w, of two_halves "''full_sync''" "[]"] obtain trace flags' where
    run: "cycle two_halves office ''full_sync'' [] = Inr (trace, flags')"
    and one: "filter is_purge trace
               = (if ''full_sync'' = ''full_sync'' \<and> ids_file office \<noteq> NoFile
                  then [RemoveAllPermissions (remove_all_permissions office)] else [])"
    by auto
  from one present calls have f: "filter is_purge trace
             = [RemoveAllPermissions
                  [ListPermissions,
                   RemoveUserPermissions (PStr ''alice'') (PList [PStr ''Team Members''])]]"
    by simp
  have first: "is_purge (trace ! 0)"
  proof (rule ccontr)
    assume n: "\<not> is_purge (trace ! 0)"
    from f have "\<exists>x \<in> set trace. is_purge x"
      by (metis filter_False list.discI)
    then obtain k where k: "k < length trace" "is_purge (trace ! k)"
      by (auto simp: in_set_conv_nth)
    with purge_once [OF w, of two_halves "''full_sync''" "[]"] run have "k = 0" by auto
    with k n show False by simp
  qed
  from w present f first started run show ?thesis by simp
qed

text \<open>
  The claim as stated gives one purge to every cycle in \<open>full_sync\<close> mode. With no file
  of the registry, as on the first run, the cycle starts its four processes and makes no
  purge.
\<close>

theorem full_sync_without_purge:
  "(case cycle two_halves (office\<lparr>ids_file := NoFile\<rparr>) ''full_sync'' [] of
      Inl err \<Rightarrow> False
    | Inr (trace, flags) \<Rightarrow>
        filter is_purge trace = [] \<and> length (filter is_started trace) = 4)"
  by code_simp

text \<open>
  Claim C1. The test \<^verbatim>\<open>"True" in is_error_shared\<close> compares a string with the booleans
  of the list, so it never holds. In the cycle below the only unit reports a failure, the
  list ends as \<open>[True]\<close>, and the checkpoint is set to the end of the window.
\<close>

theorem checkpoint_ignores_flags:
  "py_in (PStr ''True'') (map PBool flags) = False
   \<and> (case cycle one_of_each
           (office\<lparr>site_collections := [''c''], worker_process := Some 1, ids_file := NoFile\<rparr>)
           ''incremental'' [] of
        Inl err \<Rightarrow> False
      | Inr (trace, flags') \<Rightarrow>
          flags' = [True]
          \<and> filter is_checkpoint trace = [SetCheckpoint ''c'' 3600 ''incremental''])"
proof -
  have "case cycle one_of_each
           (office\<lparr>site_collections := [''c''], worker_process := Some 1, ids_file := NoFile\<rparr>)
           ''incremental'' [] of
        Inl err \<Rightarrow> False
      | Inr (trace, flags') \<Rightarrow>
          flags' = [True]
          \<and> filter is_checkpoint trace = [SetCheckpoint ''c'' 3600 ''incremental'']"
    by code_simp
  with py_in_True_flags show ?thesis by simp
qed

definition idle :: coordinator where
  "idle = office\<lparr>site_collections := [''c''], worker_process := Some 4,
                  get_checkpoint := (\<lambda>collection now. (7, 7))\<rparr>"

text \<open>
  Claim C9. Let the window of a collection have its start equal to its end, and let the
  worker count \<open>W\<close> be positive. The partitioner yields \<open>W + 1\<close> boundaries, all equal
  to the start. The coordinator does not raise: it starts \<open>W\<close> processes, each with the
  empty window, joins them and sets the checkpoint to that same time. When the source
  answers the query for the sites of the empty window with nothing, a unit makes no call
  on the sink, keeps the registry it was given and leaves its flag clear.
\<close>

theorem empty_window:
  assumes "workers co = Some W" and "0 < W"
    and "(if indexing_type = ''incremental''
          then get_checkpoint co collection (current_time co)
          else (config_start_time co, current_time co)) = (t, t)"
  shows "datetime_partitioning t t W = Inr (replicate (nat W + 1) (strptime t))
       \<and> (\<exists>g' s' f'.
            collection_cycle e co indexing_type collection (trace, g, s, f)
              = Inr (trace
                     @ replicate (nat W) (Started collection t t)
                     @ replicate (nat W)
                         (Joined collection
                            (case indexing e collection
                                    (case map_of g collection of
                                       None \<Rightarrow> empty_ids | Some i \<Rightarrow> i)
                                    (fresh_worker t t) of
                               Inl err \<Rightarrow> Inl err
                             | Inr p \<Rightarrow> Inr (sink_calls (unit_worker (fst p)))))
                     @ [SetCheckpoint collection t indexing_type],
                     g', s', f'))
       \<and> (results_of (check_response (sp_sites e collection t t) SITES) = [] \<longrightarrow>
            (\<forall>i. indexing e collection i (fresh_worker t t)
                   = Inr (\<lparr>unit_ids = i, unit_worker = fresh_worker t t, prev_ids = empty_ids\<rparr>,
                          AppendError # merge_ops i))
            \<and> sink_calls (fresh_worker t t) = [] \<and> \<not> is_error (fresh_worker t t))"
proof -
  have p: "datetime_partitioning t t W = Inr (replicate (nat W + 1) (strptime t))"
    using assms(2) by (rule partition_empty_window)
  let ?g = "case map_of g collection of
              None \<Rightarrow> dict_set g collection empty_ids | Some i \<Rightarrow> g"
  have ids0: "(case map_of ?g collection of None \<Rightarrow> empty_ids | Some i \<Rightarrow> i)
                = (case map_of g collection of None \<Rightarrow> empty_ids | Some i \<Rightarrow> i)"
    by (simp add: dict_set_def update_conv' split: option.splits)
  let ?job = "indexing e collection
                (case map_of g collection of None \<Rightarrow> empty_ids | Some i \<Rightarrow> i)
                (fresh_worker t t)"
  have run: "\<exists>g' s' f'.
            collection_cycle e co indexing_type collection (trace, g, s, f)
              = Inr (trace
                     @ replicate (nat W) (Started collection t t)
                     @ replicate (nat W)
                         (Joined collection
                            (case ?job of
                               Inl err \<Rightarrow> Inl err
                             | Inr p \<Rightarrow> Inr (sink_calls (unit_worker (fst p)))))
                     @ [SetCheckpoint collection t indexing_type],
                     g', s', f')"
    unfolding collection_cycle_def
    using assms(1,3) p
    by (simp add: Let_def py_in_True_flags unit_windows_const strftime_strptime ids0
          del: replicate.simps)
  have quiet: "results_of (check_response (sp_sites e collection t t) SITES) = [] \<longrightarrow>
            (\<forall>i. indexing e collection i (fresh_worker t t)
                   = Inr (\<lparr>unit_ids = i, unit_worker = fresh_worker t t, prev_ids = empty_ids\<rparr>,
                          AppendError # merge_ops i))
            \<and> sink_calls (fresh_worker t t) = [] \<and> \<not> is_error (fresh_worker t t)"
  proof
    assume h: "results_of (check_response (sp_sites e collection t t) SITES) = []"
    have w: "start_time (fresh_worker t t) = t" "end_time (fresh_worker t t) = t"
      "\<not> is_error (fresh_worker t t)" "sink_calls (fresh_worker t t) = []"
      by (simp_all add: fresh_worker_def)
    have "\<And>i. indexing e collection i (fresh_worker t t)
                   = Inr (\<lparr>unit_ids = i, unit_worker = fresh_worker t t, prev_ids = empty_ids\<rparr>,
                          AppendError # merge_ops i)"
      by (rule quiet_unit) (simp_all add: w h)
    with w show "(\<forall>i. indexing e collection i (fresh_worker t t)
                   = Inr (\<lparr>unit_ids = i, unit_worker = fresh_worker t t, prev_ids = empty_ids\<rparr>,
                          AppendError # merge_ops i))
            \<and> sink_calls (fresh_worker t t) = [] \<and> \<not> is_error (fresh_worker t t)"
      by simp
  qed
  from p run quiet show ?thesis by (intro conjI)
qed


theorem empty_window_witness:
  "workers idle = Some 4 \<and> (0 :: int) < 4
   \<and> get_checkpoint idle ''c'' (current_time idle) = (7, 7)
   \<and> results_of (check_response (sp_sites quiet_env ''c'' 7 7) SITES) = []
   \<and> datetime_partitioning 7 7 4 = Inr (replicate 5 7000000)
   \<and> (case collection_cycle quiet_env idle ''incremental'' ''c'' ([], [], [], []) of
         Inl err \<Rightarrow> False
       | Inr (trace, rest) \<Rightarrow>
           trace = replicate 4 (Started ''c'' 7 7) @ replicate 4 (Joined ''c'' (Inr []))
                   @ [SetCheckpoint ''c'' 7 ''incremental''])"
proof -
  have w: "workers idle = Some 4" by (simp add: workers_def idle_def office_def)
  have c: "(if ''incremental'' = ''incremental''
            then get_checkpoint idle ''c'' (current_time idle)
            else (config_start_time idle, current_time idle)) = (7, 7)"
    by (simp add: idle_def)
  have q: "results_of (check_response (sp_sites quiet_env ''c'' 7 7) SITES) = []"
    by (simp add: quiet_env_def check_response_def results_of_def)
  note t = empty_window [OF w _ c, of quiet_env "[]" "[]" "[]" "[]"]
  have p: "datetime_partitioning 7 7 4 = Inr (replicate 5 7000000)"
    using t [THEN conjunct1] by (simp add: strptime_def)
  have u: "indexing quiet_env ''c'' empty_ids (fresh_worker 7 7)
             = Inr (\<lparr>unit_ids = empty_ids, unit_worker = fresh_worker 7 7,
                     prev_ids = empty_ids\<rparr>, AppendError # merge_ops empty_ids)"
    using t [THEN conjunct2, THEN conjunct2] q by simp
  from t [THEN conjunct2, THEN conjunct1] obtain g' s' f' where
    "collection_cycle quiet_env idle ''incremental'' ''c'' ([], [], [], [])
       = Inr ([] @ replicate (nat 4) (Started ''c'' 7 7)
              @ replicate (nat 4)
                  (Joined ''c''
                     (case indexing quiet_env ''c''
                             (case map_of [] ''c'' of None \<Rightarrow> empty_ids | Some i \<Rightarrow> i)
                             (fresh_worker 7 7) of
                        Inl err \<Rightarrow> Inl err
                      | Inr p \<Rightarrow> Inr (sink_calls (unit_worker (fst p)))))
              @ [SetCheckpoint ''c'' 7 ''incremental''], g', s', f')"
    by auto
  with u have "collection_cycle quiet_env idle ''incremental'' ''c'' ([], [], [], [])
       = Inr (replicate 4 (Started ''c'' 7 7) @ replicate 4 (Joined ''c'' (Inr []))
              @ [SetCheckpoint ''c'' 7 ''incremental''], g', s', f')"
    by (simp add: fresh_worker_def)
  with w c q p show ?thesis by simp
qed

text \<open>
  The claim as stated has a single empty partition. With four workers the partitioner
  yields five equal boundaries and the coordinator starts four processes.
\<close>

theorem empty_window_four_partitions:
  "datetime_partitioning 7 7 4 = Inr [7000000, 7000000, 7000000, 7000000, 7000000]
   \<and> (case collection_cycle quiet_env idle ''incremental'' ''c'' ([], [], [], []) of
        Inl err \<Rightarrow> False
      | Inr (trace, rest) \<Rightarrow>
          filter is_started trace
            = [Started ''c'' 7 7, Started ''c'' 7 7, Started ''c'' 7 7, Started ''c'' 7 7])"
  by code_simp

section \<open>The batches of the lists stage\<close>

text \<open>The batches of documents among the calls on the sink, in order.\<close>

fun batch_of :: "sink_call \<Rightarrow> pydict list list" where
  "batch_of (IndexDocuments chunk) = [chunk]"
| "batch_of (AddUserPermissions user_name permission) = []"

definition batches :: "sink_call list \<Rightarrow> pydict list list" where
  "batches calls = concat (map batch_of calls)"

text \<open>A step that keeps the window of the worker and submits no batch.\<close>

definition only_grants :: "worker \<Rightarrow> worker \<Rightarrow> bool" where
  "only_grants w w' \<longleftrightarrow>
     start_time w' = start_time w \<and> end_time w' = end_time w
     \<and> batches (sink_calls w') = batches (sink_calls w)"

lemma only_grants_refl: "only_grants w w"
  by (simp add: only_grants_def)

lemma only_grants_trans: "only_grants a b \<Longrightarrow> only_grants b c \<Longrightarrow> only_grants a c"
  by (simp add: only_grants_def)

lemma add_permission_only_grants:
  "only_grants w (workplace_add_permission e user_name permission w)"
  by (simp add: only_grants_def workplace_add_permission_def Let_def batches_def)

lemma grant_user_only_grants:
  "grant_user e rows title user w = Inr w' \<Longrightarrow> only_grants w w'"
  by (auto simp: grant_user_def add_permission_only_grants dest!: and_then_eq_Inr)

lemma grant_users_only_grants:
  "fold_err (grant_user e rows title) us w = Inr w' \<Longrightarrow> only_grants w w'"
proof (induction us arbitrary: w)
  case Nil
  then show ?case by (simp add: only_grants_refl)
next
  case (Cons u us)
  then obtain w1 where a: "grant_user e rows title u w = Inr w1"
    and b: "fold_err (grant_user e rows title) us w1 = Inr w'"
    by (auto split: sum.splits)
  from grant_user_only_grants [OF a] Cons.IH [OF b] show ?case by (rule only_grants_trans)
qed

lemma grant_role_only_grants:
  "grant_role e rows role (groups, w) = Inr (groups', w') \<Longrightarrow> only_grants w w'"
  by (auto simp: grant_role_def add_permission_only_grants split: if_splits
        dest!: and_then_eq_Inr dest: grant_users_only_grants)

lemma grant_roles_only_grants:
  "fold_err (grant_role e rows) roles (groups, w) = Inr (groups', w') \<Longrightarrow> only_grants w w'"
proof (induction roles arbitrary: groups w)
  case Nil
  then show ?case by (simp add: only_grants_refl)
next
  case (Cons r roles)
  then obtain g1 w1 where a: "grant_role e rows r (groups, w) = Inr (g1, w1)"
    and b: "fold_err (grant_role e rows) roles (g1, w1) = Inr (groups', w')"
    by (auto split: sum.splits)
  from grant_role_only_grants [OF a] Cons.IH [OF b] show ?case by (rule only_grants_trans)
qed

lemma index_permissions_only_grants:
  "index_permissions e key site list_name list_url_v itemid w = Inr (groups, w')
     \<Longrightarrow> only_grants w w'"
  by (auto simp: index_permissions_def split: option.splits
        dest!: and_then_eq_Inr dest: grant_roles_only_grants)

lemma list_doc_appends:
  assumes "list_doc e schema_list site item (document, i, w) = Inr (document', i', w')"
  shows "\<exists>doc. document' = document @ [doc] \<and> only_grants w w'"
  using assms
  by (auto simp: list_doc_def Let_def only_grants_refl split: if_splits
        dest!: and_then_eq_Inr dest: index_permissions_only_grants)

lemma list_docs_append:
  assumes "fold_err (list_doc e schema_list site) items (document, i, w) = Inr (document', i', w')"
  shows "\<exists>docs. document' = document @ docs \<and> length docs = length items \<and> only_grants w w'"
  using assms
proof (induction items arbitrary: document i w)
  case Nil
  then show ?case by (simp add: only_grants_refl)
next
  case (Cons item items)
  then obtain d1 i1 w1 where
    a: "list_doc e schema_list site item (document, i, w) = Inr (d1, i1, w1)"
    and b: "fold_err (list_doc e schema_list site) items (d1, i1, w1) = Inr (document', i', w')"
    by (auto split: sum.splits)
  from list_doc_appends [OF a] obtain doc where
    d1: "d1 = document @ [doc]" and g1: "only_grants w w1" by blast
  from Cons.IH [OF b] obtain docs where
    d2: "document' = d1 @ docs" and len: "length docs = length items"
    and g2: "only_grants w1 w'" by blast
  have "document' = document @ (doc # docs)" using d1 d2 by simp
  moreover have "length (doc # docs) = length (item # items)" using len by simp
  moreover have "only_grants w w'" using g1 g2 by (rule only_grants_trans)
  ultimately show ?case by blast
qed

lemma submit_chunks_log:
  assumes "\<forall>calls chunk. ws_index_documents e calls chunk \<noteq> SinkRaises"
  shows "sink_calls (submit_chunks e cs w) = sink_calls w @ map IndexDocuments cs
       \<and> start_time (submit_chunks e cs w) = start_time w
       \<and> end_time (submit_chunks e cs w) = end_time w"
proof (induction cs arbitrary: w)
  case Nil
  show ?case by simp
next
  case (Cons c cs)
  obtain results where r: "ws_index_documents e (sink_calls w) c = SinkResults results"
    using assms by (cases "ws_index_documents e (sink_calls w) c") auto
  show ?case using Cons.IH [of "w\<lparr>sink_calls := sink_calls w @ [IndexDocuments c]\<rparr>"] r
    by (simp add: Let_def)
qed

lemma batches_append: "batches (a @ b) = batches a @ batches b"
  by (simp add: batches_def)

lemma batches_index: "batches (map IndexDocuments cs) = cs"
  by (induction cs) (simp_all add: batches_def)

lemma index_document_log:
  assumes "\<forall>calls chunk. ws_index_documents e calls chunk \<noteq> SinkRaises"
    and "document \<noteq> []"
  shows "batches (sink_calls (index_document e document w))
           = batches (sink_calls w) @ chunks DOCUMENT_SIZE document"
    and "start_time (index_document e document w) = start_time w"
    and "end_time (index_document e document w) = end_time w"
  using assms(2) submit_chunks_log [OF assms(1), of "chunks DOCUMENT_SIZE document" w]
  by (simp_all add: index_document_def batches_append batches_index)


lemma lists_of_site_step:
  assumes quiet: "\<forall>calls chunk. ws_index_documents e calls chunk \<noteq> SinkRaises"
    and run: "lists_of_site e True site (responses, document, i, w)
                = Inr (responses', document', i', w')"
  shows "(results_of (check_response (sp_lists e site (start_time w) (end_time w)) LISTS) = []
            \<longrightarrow> responses' = responses \<and> document' = document \<and> w' = w)
       \<and> (results_of (check_response (sp_lists e site (start_time w) (end_time w)) LISTS) \<noteq> []
            \<longrightarrow> responses' = responses
                    @ [results_of (check_response
                         (sp_lists e site (start_time w) (end_time w)) LISTS)]
              \<and> (\<exists>docs. document' = document @ docs
                    \<and> length docs = length (results_of (check_response
                         (sp_lists e site (start_time w) (end_time w)) LISTS)))
              \<and> batches (sink_calls w')
                  = batches (sink_calls w) @ chunks DOCUMENT_SIZE document'
              \<and> start_time w' = start_time w \<and> end_time w' = end_time w)"
proof (cases "results_of (check_response (sp_lists e site (start_time w) (end_time w)) LISTS) = []")
  case True
  with run show ?thesis by (simp add: lists_of_site_def)
next
  case False
  let ?r = "results_of (check_response (sp_lists e site (start_time w) (end_time w)) LISTS)"
  from run False obtain lists1 d1 i1 w1 where
    loop: "fold_err (list_doc e (get_schema_fields (objects e) (DEFAULT_SCHEMA e) LISTS) site) ?r
             (document, i\<lparr>ids_lists := lists1\<rparr>, w) = Inr (d1, i1, w1)"
    and out: "responses' = responses @ [?r]" "document' = d1" "w' = index_document e d1 w1"
    by (auto simp: lists_of_site_def Let_def dest!: and_then_eq_Inr)
  from list_docs_append [OF loop] obtain docs where
    docs: "d1 = document @ docs" "length docs = length ?r" and g: "only_grants w w1"
    by blast
  from docs False have ne: "d1 \<noteq> []" by auto
  note log = index_document_log [OF quiet ne, of w1]
  from g have gw: "start_time w1 = start_time w" "end_time w1 = end_time w"
    "batches (sink_calls w1) = batches (sink_calls w)"
    by (simp_all add: only_grants_def)
  have "batches (sink_calls w') = batches (sink_calls w) @ chunks DOCUMENT_SIZE document'"
    using log(1) gw(3) out by simp
  moreover have "start_time w' = start_time w" "end_time w' = end_time w"
    using log(2,3) gw(1,2) out by simp_all
  moreover have "\<exists>docs. document' = document @ docs \<and> length docs = length ?r"
    using docs out by blast
  ultimately show ?thesis using False out(1) by simp
qed

lemma upt_batches:
  "map f [0..<Suc n] = f 0 # map (\<lambda>k. f (Suc k)) [0..<n]"
  by (simp only: upt_conv_Cons [of 0 "Suc n"] map_Suc_upt [symmetric]) (simp add: comp_def)

lemma lists_loop:
  assumes quiet: "\<forall>calls chunk. ws_index_documents e calls chunk \<noteq> SinkRaises"
    and run: "fold_err (lists_of_site e True) sites (responses, document, i, w)
                = Inr (responses', document', i', w')"
  shows "\<exists>Ds. responses' = responses
              @ filter (\<lambda>r. r \<noteq> [])
                  (map (\<lambda>site. results_of (check_response
                          (sp_lists e site (start_time w) (end_time w)) LISTS)) sites)
          \<and> list_all2 (\<lambda>D r. length D = length r) Ds
              (filter (\<lambda>r. r \<noteq> [])
                  (map (\<lambda>site. results_of (check_response
                          (sp_lists e site (start_time w) (end_time w)) LISTS)) sites))
          \<and> document' = document @ concat Ds
          \<and> batches (sink_calls w')
              = batches (sink_calls w)
                @ concat (map (\<lambda>k. chunks DOCUMENT_SIZE (document @ concat (take (Suc k) Ds)))
                            [0..<length Ds])"
  using run
proof (induction sites arbitrary: responses document i w)
  case Nil
  then show ?case by simp
next
  case (Cons site sites)
  let ?r = "results_of (check_response (sp_lists e site (start_time w) (end_time w)) LISTS)"
  from Cons.prems obtain r1 d1 i1 w1 where
    one: "lists_of_site e True site (responses, document, i, w) = Inr (r1, d1, i1, w1)"
    and rest: "fold_err (lists_of_site e True) sites (r1, d1, i1, w1)
                 = Inr (responses', document', i', w')"
    by (auto split: sum.splits)
  note step = lists_of_site_step [OF quiet one]
  from Cons.IH [OF rest] obtain Ds where
    r': "responses' = r1
              @ filter (\<lambda>r. r \<noteq> [])
                  (map (\<lambda>site. results_of (check_response
                          (sp_lists e site (start_time w1) (end_time w1)) LISTS)) sites)"
    and l': "list_all2 (\<lambda>D r. length D = length r) Ds
              (filter (\<lambda>r. r \<noteq> [])
                  (map (\<lambda>site. results_of (check_response
                          (sp_lists e site (start_time w1) (end_time w1)) LISTS)) sites))"
    and d': "document' = d1 @ concat Ds"
    and b': "batches (sink_calls w')
              = batches (sink_calls w1)
                @ concat (map (\<lambda>k. chunks DOCUMENT_SIZE (d1 @ concat (take (Suc k) Ds)))
                            [0..<length Ds])"
    by blast
  show ?case
  proof (cases "?r = []")
    case True
    with step have "r1 = responses" "d1 = document" "w1 = w" by simp_all
    with r' l' d' b' True show ?thesis by auto
  next
    case False
    with step obtain docs where
      s1: "r1 = responses @ [?r]" "d1 = document @ docs" "length docs = length ?r"
        "batches (sink_calls w1) = batches (sink_calls w) @ chunks DOCUMENT_SIZE d1"
        "start_time w1 = start_time w" "end_time w1 = end_time w"
      by auto
    let ?Ds = "docs # Ds"
    have a: "responses' = responses
              @ filter (\<lambda>r. r \<noteq> [])
                  (map (\<lambda>site. results_of (check_response
                          (sp_lists e site (start_time w) (end_time w)) LISTS)) (site # sites))"
      using r' s1 False by simp
    have b: "list_all2 (\<lambda>D r. length D = length r) ?Ds
              (filter (\<lambda>r. r \<noteq> [])
                  (map (\<lambda>site. results_of (check_response
                          (sp_lists e site (start_time w) (end_time w)) LISTS)) (site # sites)))"
      using l' s1 False by simp
    have c: "document' = document @ concat ?Ds" using d' s1 by simp
    have "concat (map (\<lambda>k. chunks DOCUMENT_SIZE (document @ concat (take (Suc k) ?Ds)))
                    [0..<length ?Ds])
            = chunks DOCUMENT_SIZE d1
              @ concat (map (\<lambda>k. chunks DOCUMENT_SIZE (d1 @ concat (take (Suc k) Ds)))
                          [0..<length Ds])"
      using s1(2) by (simp add: upt_batches del: upt_Suc)
    with b' s1(4) have d: "batches (sink_calls w')
              = batches (sink_calls w)
                @ concat (map (\<lambda>k. chunks DOCUMENT_SIZE (document @ concat (take (Suc k) ?Ds)))
                            [0..<length ?Ds])"
      by simp
    from a b c d show ?thesis by blast
  qed
qed

lemma concat_take_chunks:
  "concat (map (\<lambda>i. take n (drop (i * n) xs)) [0..<m]) = take (m * n) xs"
proof (induction m)
  case 0
  show ?case by simp
next
  case (Suc m)
  have "take (m * n + n) xs = take (m * n) xs @ take n (drop (m * n) xs)"
    by (simp add: take_add)
  with Suc show ?case by (simp add: add.commute)
qed

lemma concat_chunks: "0 < n \<Longrightarrow> concat (chunks n xs) = xs"
proof -
  assume n: "0 < n"
  have "(length xs + n - 1) div n * n + (length xs + n - 1) mod n = length xs + n - 1"
    by simp
  moreover have "(length xs + n - 1) mod n < n" using n by simp
  ultimately have "length xs \<le> (length xs + n - 1) div n * n" by linarith
  then show ?thesis by (simp add: chunks_def concat_take_chunks)
qed


text \<open>
  Claim C10. Let no submission to the sink raise, and let \<^verbatim>\<open>index_lists\<close> return. It
  returns the responses of the sites that have lists, in the order of the sites. There is
  one list of documents per such site, one document per list, and the batches submitted
  are: after the \<open>k\<close>-th such site, the chunks of the documents of the first \<open>k\<close> such
  sites together. So the documents submitted, in order, are those of the first site;
  then those of the first and the second; and so on: the documents of a site are
  submitted once for that site and once more for every later site that has lists.
\<close>

theorem lists_resubmitted:
  assumes "\<forall>calls chunk. ws_index_documents e calls chunk \<noteq> SinkRaises"
    and "index_lists e site_paths i True w = Inr (responses, i', w')"
  shows "responses
           = filter (\<lambda>r. r \<noteq> [])
               (map (\<lambda>site. results_of (check_response
                       (sp_lists e site (start_time w) (end_time w)) LISTS)) site_paths)
       \<and> (\<exists>Ds. list_all2 (\<lambda>D r. length D = length r) Ds responses
             \<and> batches (sink_calls w')
                 = batches (sink_calls w)
                   @ concat (map (\<lambda>k. chunks DOCUMENT_SIZE (concat (take (Suc k) Ds)))
                               [0..<length Ds])
             \<and> concat (batches (sink_calls w'))
                 = concat (batches (sink_calls w))
                   @ concat (map (\<lambda>k. concat (take (Suc k) Ds)) [0..<length Ds]))"
proof (cases "site_paths = []")
  case True
  with assms(2) have "responses = []" "w' = w" by (simp_all add: index_lists_def)
  with True show ?thesis by simp
next
  case False
  with assms(2) obtain document' where
    run: "fold_err (lists_of_site e True) site_paths ([], [], i, w)
            = Inr (responses, document', i', w')"
    by (auto simp: index_lists_def dest!: and_then_eq_Inr)
  from lists_loop [OF assms(1) run] obtain Ds where
    r: "responses
           = filter (\<lambda>r. r \<noteq> [])
               (map (\<lambda>site. results_of (check_response
                       (sp_lists e site (start_time w) (end_time w)) LISTS)) site_paths)"
    and l: "list_all2 (\<lambda>D r. length D = length r) Ds responses"
    and b: "batches (sink_calls w')
              = batches (sink_calls w)
                @ concat (map (\<lambda>k. chunks DOCUMENT_SIZE (concat (take (Suc k) Ds)))
                            [0..<length Ds])"
    by auto
  have "concat (concat (map (\<lambda>k. chunks DOCUMENT_SIZE (concat (take (Suc k) Ds))) ks))
          = concat (map (\<lambda>k. concat (take (Suc k) Ds)) ks)" for ks
    by (induction ks) (simp_all add: concat_chunks DOCUMENT_SIZE_def)
  with b have c: "concat (batches (sink_calls w'))
                 = concat (batches (sink_calls w))
                   @ concat (map (\<lambda>k. concat (take (Suc k) Ds)) [0..<length Ds])"
    by simp
  from r l b c show ?thesis by blast
qed

text \<open>The two sites again, asked for the lists of the whole hour by one unit.\<close>

theorem lists_resubmitted_witness:
  "(\<forall>calls chunk. ws_index_documents two_halves calls chunk \<noteq> SinkRaises)
   \<and> (case index_lists two_halves [PStr ''/sites/c/a'', PStr ''/sites/c/b''] empty_ids True
            (fresh_worker 0 3600) of
        Inl err \<Rightarrow> False
      | Inr (responses, i, w) \<Rightarrow>
          responses = [[list_a1], [list_b1]]
          \<and> map (map (\<lambda>doc. dict_get doc ''id'')) (batches (sink_calls w))
              = [[PStr ''l1''], [PStr ''l1'', PStr ''l2'']])"
proof -
  have quiet: "\<forall>calls chunk. ws_index_documents two_halves calls chunk \<noteq> SinkRaises"
    by (simp add: two_halves_def quiet_env_def)
  have "case index_lists two_halves [PStr ''/sites/c/a'', PStr ''/sites/c/b''] empty_ids True
            (fresh_worker 0 3600) of
        Inl err \<Rightarrow> False
      | Inr (responses, i, w) \<Rightarrow>
          map (map (\<lambda>doc. dict_get doc ''id'')) (batches (sink_calls w))
              = [[PStr ''l1''], [PStr ''l1'', PStr ''l2'']]"
    by code_simp
  then obtain responses i w where
    run: "index_lists two_halves [PStr ''/sites/c/a'', PStr ''/sites/c/b''] empty_ids True
            (fresh_worker 0 3600) = Inr (responses, i, w)"
    and ids: "map (map (\<lambda>doc. dict_get doc ''id'')) (batches (sink_calls w))
              = [[PStr ''l1''], [PStr ''l1'', PStr ''l2'']]"
    by (auto split: sum.splits)
  from lists_resubmitted [OF quiet run]
  have "responses = [[list_a1], [list_b1]]"
    by (simp add: two_halves_def quiet_env_def check_response_def results_of_def
          fresh_worker_def)
  with quiet run ids show ?thesis by simp
qed

text \<open>
  The claim as stated submits the documents of every site. Here one site has 101 lists and
  the sink refuses every batch: the first chunk of a hundred documents is submitted, the
  call raises, and the last document is never submitted.
\<close>

definition many_lists :: env where
  "many_lists = quiet_env
     \<lparr>sp_lists := (\<lambda>site s t. Json (Some (map (\<lambda>n.
          [(''Id'', PInt (int n)), (''ParentWebUrl'', PStr ''/sites/c/a''),
           (''Title'', PStr ''Docs'')]) [0..<101]))),
      ws_index_documents := (\<lambda>calls chunk. SinkRaises)\<rparr>"

theorem raising_sink_drops_documents:
  "(case index_lists many_lists [PStr ''/sites/c/a''] empty_ids True (fresh_worker 0 3600) of
      Inl err \<Rightarrow> False
    | Inr (responses, i, w) \<Rightarrow>
        map length responses = [101]
        \<and> map length (batches (sink_calls w)) = [100])"
  by code_simp

section \<open>Items whose attachment fails\<close>


















end
